theory Spec2Isabelle
  imports Main
begin

text \<open>
  kubelogs finds the pods of a Kubernetes namespace whose names match the patterns
  given on the command line and prints the logs of their containers, one
  \<^verbatim>\<open>kubectl logs\<close> subprocess per container, all at the same time, each line after a
  prefix that names the pod and the container. This theory embeds
  \<^verbatim>\<open>src/command/logs.go\<close> and \<^verbatim>\<open>src/main.go\<close> and proves properties of the pod
  resolver, of the command lines, of the readers and of the way the goroutines are
  joined. Line numbers are those of \<^verbatim>\<open>src/command/logs.go\<close> unless said otherwise.
\<close>

section \<open>Data model\<close>

text \<open>
  The three structs at the end of \<^verbatim>\<open>src/command/logs.go\<close> (lines 218-232). The Go
  code holds them behind pointers that are created fresh and never shared, so plain
  values model them. Both \<open>Container\<close> and \<open>Pod\<close> have a field \<open>Name\<close>; the
  fields are told apart by their qualified names \<open>Container.Name\<close> and \<open>Pod.Name\<close>.
\<close>

record Container =
  Name :: string

record Pod =
  Name :: string
  Containers :: "Container list"

record Pods =
  Items :: "Pod list"

text \<open>
  Go errors are values that carry a message; \<open>EOF\<close> is \<^verbatim>\<open>io.EOF\<close>.
\<close>

datatype error = EOF | Err string

text \<open>
  How a Go function call ends: it returns a value, it ends the whole process through
  \<^verbatim>\<open>logrus.Fatalln(err)\<close> (the entry is logged at fatal level, then
  \<^verbatim>\<open>os.Exit(1)\<close>), or it panics (an index out of range).
\<close>

datatype 'a outcome = Returns 'a | Fatalln error | Panics

section \<open>Library functions the code calls\<close>

subsection \<open>\<^verbatim>\<open>strings.Split\<close>\<close>

text \<open>
  \<^verbatim>\<open>strings.Split(s, sep)\<close> for a separator of one byte, the only way the code calls it
  (\<^verbatim>\<open>"|"\<close> at line 192, \<^verbatim>\<open>" "\<close> at line 194): the pieces of \<open>s\<close> between the
  occurrences of \<open>sep\<close>, in order. \<open>split_from\<close> scans the text with the piece
  read so far in \<open>cur\<close>.
\<close>

fun split_from :: "char \<Rightarrow> string \<Rightarrow> string \<Rightarrow> string list" where
  "split_from sep cur [] = [cur]"
| "split_from sep cur (c # s) =
     (if c = sep then cur # split_from sep [] s else split_from sep (cur @ [c]) s)"

definition strings_Split :: "string \<Rightarrow> char \<Rightarrow> string list" where
  "strings_Split s sep = split_from sep [] s"

subsection \<open>\<^verbatim>\<open>regexp.Compile\<close> and \<^verbatim>\<open>MatchString\<close>\<close>

text \<open>
  The regexp package is not part of the repository. In every definition below it is a
  parameter: a function that takes the pattern and gives either the compile error or
  the compiled expression, represented by what \<^verbatim>\<open>MatchString\<close> answers on each
  text. The general theorems hold for every such function.

  The concrete examples need an instance. \<open>literal_regexp\<close> is the package on the
  patterns the examples use: a pattern of ASCII bytes none of which is one of the
  fourteen bytes \<^verbatim>\<open>\.+*?()|[]{}^$\<close> that \<^verbatim>\<open>regexp.QuoteMeta\<close> escapes is a
  literal, it compiles, and \<^verbatim>\<open>MatchString\<close> reports whether the text contains it
  (a search, not a match of the whole text). Every other pattern is refused by
  \<open>literal_regexp\<close>; of these, the examples use only \<^verbatim>\<open>"("\<close>, which the package
  refuses too (missing closing parenthesis).
\<close>

fun HasPrefix :: "string \<Rightarrow> string \<Rightarrow> bool" where
  "HasPrefix s [] = True"
| "HasPrefix [] (p # ps) = False"
| "HasPrefix (c # s) (p # ps) = (c = p \<and> HasPrefix s ps)"

fun Contains :: "string \<Rightarrow> string \<Rightarrow> bool" where
  "Contains [] substr = (substr = [])"
| "Contains (c # s) substr = (HasPrefix (c # s) substr \<or> Contains s substr)"

definition special_bytes :: string where
  "special_bytes = [CHR 0x5C, CHR ''.'', CHR ''+'', CHR ''*'', CHR ''?'', CHR ''('', CHR '')'',
     CHR ''|'', CHR ''['', CHR '']'', CHR ''{'', CHR ''}'', CHR ''^'', CHR ''$'']"

definition literal_byte :: "char \<Rightarrow> bool" where
  "literal_byte c = (of_char c < (128::nat) \<and> c \<notin> set special_bytes)"

definition literal_regexp :: "string \<Rightarrow> error + (string \<Rightarrow> bool)" where
  "literal_regexp expr =
     (if list_all literal_byte expr then Inr (\<lambda>s. Contains s expr)
      else Inl (Err ''error parsing regexp''))"

section \<open>The pod resolver: \<^verbatim>\<open>cmdGetPods\<close> (lines 178-216)\<close>

text \<open>
  The world outside the program. \<open>regexp_Compile\<close> is the regexp package.
  \<open>CombinedOutput k cmd\<close> is what the \<open>k\<close>-th discovery invocation
  \<^verbatim>\<open>exec.Command("bash", "-c", cmd).CombinedOutput()\<close> gives back: an error, or the text
  the command wrote. The index lets the cluster answer differently each time.
  \<open>subprocess k cmd\<close> is how the subprocess of the \<open>k\<close>-th streaming task behaves,
  started as \<^verbatim>\<open>exec.Command("bash", "-c", cmd)\<close>: the error, if any, of
  \<^verbatim>\<open>StdoutPipe\<close>, \<^verbatim>\<open>StderrPipe\<close> and \<^verbatim>\<open>Start\<close>, the bytes it writes to its two
  output channels, and the error, if any, that \<^verbatim>\<open>Wait\<close> returns once it has exited
  (a non-zero exit status is such an error). The outputs are finite: a subprocess that
  writes for ever (follow mode) is outside this model.
\<close>

record proc =
  StdoutPipe_err :: "error option"
  StderrPipe_err :: "error option"
  Start_err :: "error option"
  stdout :: string
  stderr :: string
  Wait_err :: "error option"

record world =
  regexp_Compile :: "string \<Rightarrow> error + (string \<Rightarrow> bool)"
  CombinedOutput :: "nat \<Rightarrow> string \<Rightarrow> error + string"
  subprocess :: "nat \<Rightarrow> string \<Rightarrow> proc"

text \<open>The command line of line 179, with the namespace put in for \<^verbatim>\<open>%s\<close>.\<close>

definition get_pod_command :: "string \<Rightarrow> string" where
  "get_pod_command namespace =
     ''kubectl get pod -n '' @ namespace @ '' --output=jsonpath='' @ [CHR 0x22] @
     ''{range .items[*]}{.metadata.name} {.spec['containers', 'initContainers'][*].name}|{end}'' @
     [CHR 0x22]"

text \<open>
  The inner loop (lines 203-210): a container name is skipped when a filter is given and
  differs from it, and appended otherwise.
\<close>

fun container_loop :: "string \<Rightarrow> string list \<Rightarrow> Container list \<Rightarrow> Container list" where
  "container_loop cName [] acc = acc"
| "container_loop cName (c # cs) acc =
     (if cName \<noteq> [] \<and> cName \<noteq> c then container_loop cName cs acc
      else container_loop cName cs (acc @ [\<lparr>Container.Name = c\<rparr>]))"

text \<open>
  The outer loop (lines 193-213) over the pieces of the output. \<^verbatim>\<open>cs[0]\<close> panics on
  an empty slice; that branch is written out.
\<close>

fun pod_loop :: "(string \<Rightarrow> bool) \<Rightarrow> string \<Rightarrow> string list \<Rightarrow> Pod list \<Rightarrow> Pod list outcome" where
  "pod_loop pr cName [] items = Returns items"
| "pod_loop pr cName (p # ps) items =
     (case strings_Split p CHR '' '' of
        [] \<Rightarrow> Panics
      | c0 # rest \<Rightarrow>
          if \<not> pr c0 then pod_loop pr cName ps items
          else pod_loop pr cName ps
                 (items @ [\<lparr>Pod.Name = c0, Containers = container_loop cName rest []\<rparr>]))"

text \<open>
  \<open>cmdGetPods\<close> returns the pair \<^verbatim>\<open>(pods, err)\<close>: \<open>Inl err\<close> when the discovery
  command failed (line 182), \<open>Inr pods\<close> otherwise. A pattern that does not compile
  ends the process inside the function (line 187).
\<close>

definition cmdGetPods :: "world \<Rightarrow> nat \<Rightarrow> string \<Rightarrow> string \<Rightarrow> string \<Rightarrow> (error + Pods) outcome" where
  "cmdGetPods w k podRegexp cName namespace =
     (case CombinedOutput w k (get_pod_command namespace) of
        Inl err \<Rightarrow> Returns (Inl err)
      | Inr out \<Rightarrow>
          (case regexp_Compile w podRegexp of
             Inl err \<Rightarrow> Fatalln err
           | Inr pr \<Rightarrow>
               (case pod_loop pr cName (strings_Split out CHR ''|'') [] of
                  Returns items \<Rightarrow> Returns (Inr \<lparr>Items = items\<rparr>)
                | Fatalln err \<Rightarrow> Fatalln err
                | Panics \<Rightarrow> Panics)))"

section \<open>The command: \<^verbatim>\<open>Run\<close> of \<^verbatim>\<open>NewCmdLogs\<close> (lines 67-160)\<close>

subsection \<open>Options, flags and log entries\<close>

text \<open>
  Of \<^verbatim>\<open>LogsOptions\<close> (lines 22-36) the command reads three fields: \<^verbatim>\<open>o.Debug\<close>
  (line 68), \<^verbatim>\<open>o.Container\<close> (lines 82, 96) and \<^verbatim>\<open>o.Namespace\<close> (line 82). The
  other fields reach the external tool only through the flag set.
\<close>

record LogsOptions =
  Container :: string
  Namespace :: string
  Debug :: bool

text \<open>
  \<^verbatim>\<open>NewLogsOptions\<close> (lines 47-52): the options before the command line is parsed. The
  zero values of Go are the empty string and \<^verbatim>\<open>false\<close>.
\<close>

definition NewLogsOptions :: LogsOptions where
  "NewLogsOptions = \<lparr>Container = [], Namespace = ''default'', Debug = False\<rparr>"

text \<open>
  A \<^verbatim>\<open>pflag.Flag\<close> as the callback of line 73 reads it: its long name, its value
  printed by \<^verbatim>\<open>%s\<close>, and whether the command line set it.
\<close>

record Flag =
  Name :: string
  Value :: string
  Changed :: bool

text \<open>
  \<^verbatim>\<open>VisitAll\<close> with the callback of lines 73-78: the flags come in the order in which
  the library visits them, and \<open>fg\<close> is the text built so far.
\<close>

fun VisitAll :: "Flag list \<Rightarrow> string \<Rightarrow> string" where
  "VisitAll [] fg = fg"
| "VisitAll (flag # flags) fg =
     (if Flag.Name flag = ''help'' \<or> Flag.Name flag = ''debug'' \<or> \<not> Changed flag
      then VisitAll flags fg
      else VisitAll flags (fg @ '' --'' @ Flag.Name flag @ ''='' @ Value flag))"

text \<open>
  The logrus levels the code logs at, and the goroutine that wrote an entry: the command
  itself, the goroutine of the \<open>k\<close>-th streaming task, or one of its two readers. The
  writer is not part of the printed line; the trace keeps it so that properties can say
  who logged what.
\<close>

datatype Level = FatalLevel | ErrorLevel | InfoLevel | DebugLevel

datatype channel = Stdout | Stderr

datatype origin = Command | Task nat | Reader nat channel

datatype event =
    Log origin Level string
  | Started nat string

definition Error :: "error \<Rightarrow> string" where
  "Error err = (case err of EOF \<Rightarrow> ''EOF'' | Err msg \<Rightarrow> msg)"

text \<open>\<^verbatim>\<open>%d\<close> of a slice length.\<close>

function itoa :: "nat \<Rightarrow> string" where
  "itoa n = (if n < 10 then [char_of (48 + n)] else itoa (n div 10) @ [char_of (48 + n mod 10)])"
  by pat_completeness auto
termination
  by (relation "measure id") auto

subsection \<open>Resolving the arguments (lines 80-88)\<close>

text \<open>
  The loop over the arguments: the \<open>k\<close>-th argument makes the \<open>k\<close>-th discovery
  invocation. An error that \<open>cmdGetPods\<close> returns is fatal (line 84); otherwise the pods
  found are appended to \<^verbatim>\<open>pods.Items\<close> (line 87).
\<close>

fun resolve_loop :: "world \<Rightarrow> LogsOptions \<Rightarrow> nat \<Rightarrow> string list \<Rightarrow> Pod list \<Rightarrow> Pod list outcome" where
  "resolve_loop w o' k [] items = Returns items"
| "resolve_loop w o' k (arg # args) items =
     (case cmdGetPods w k arg (Container o') (Namespace o') of
        Returns (Inl err) \<Rightarrow> Fatalln err
      | Returns (Inr p) \<Rightarrow> resolve_loop w o' (Suc k) args (items @ Items p)
      | Fatalln err \<Rightarrow> Fatalln err
      | Panics \<Rightarrow> Panics)"

subsection \<open>The streaming tasks (lines 93-157)\<close>

text \<open>
  What one pass of the inner loop fixes before it starts the goroutine of line 105: the
  two names it logs (line 99), the command line \<open>str\<close> (lines 95-98) and the
  \<open>prefix\<close> (line 102).
\<close>

record StreamTask =
  pod :: string
  container :: string
  str :: string
  prefix :: string

definition new_task :: "LogsOptions \<Rightarrow> string \<Rightarrow> Pod \<Rightarrow> Container \<Rightarrow> StreamTask" where
  "new_task o' fg p c =
     \<lparr>pod = Pod.Name p,
      container = Container.Name c,
      str = (let s = ''kubectl logs '' @ Pod.Name p @ '' '' @ fg
             in if Container o' = [] then s @ '' --container '' @ Container.Name c else s),
      prefix = ''['' @ Pod.Name p @ '' '' @ Container.Name c @ '']''\<rparr>"

fun container_tasks :: "LogsOptions \<Rightarrow> string \<Rightarrow> Pod \<Rightarrow> Container list \<Rightarrow> StreamTask list" where
  "container_tasks o' fg p [] = []"
| "container_tasks o' fg p (c # cs) = new_task o' fg p c # container_tasks o' fg p cs"

fun pod_tasks :: "LogsOptions \<Rightarrow> string \<Rightarrow> Pod list \<Rightarrow> StreamTask list" where
  "pod_tasks o' fg [] = []"
| "pod_tasks o' fg (p # ps) = container_tasks o' fg p (Containers p) @ pod_tasks o' fg ps"

subsection \<open>The readers (lines 125-147)\<close>

text \<open>
  \<^verbatim>\<open>bufio.Reader.ReadString(delim)\<close> on a stream that still holds the bytes \<open>s\<close> and
  then ends with the error \<open>e\<close> (\<^verbatim>\<open>io.EOF\<close> at the end of the stream, or a read
  error): the bytes up to and including the first \<open>delim\<close>, or, when the stream ends
  first, the bytes read so far together with the error. The second component is the
  stream left.
\<close>

fun ReadString :: "error \<Rightarrow> string \<Rightarrow> char \<Rightarrow> (string \<times> error option) \<times> string" where
  "ReadString e [] delim = (([], Some e), [])"
| "ReadString e (c # s) delim =
     (if c = delim then (([c], None), s)
      else (case ReadString e s delim of ((line, err), rest) \<Rightarrow> ((c # line, err), rest)))"

definition newline :: char where
  "newline = CHR 0x0A"

lemma ReadString_shorter:
  "ReadString e s delim = ((line, None), rest) \<Longrightarrow> length rest < length s"
  by (induction s arbitrary: line) (auto split: if_splits prod.splits)

text \<open>
  The loop of a reader: the messages it logs at info level, in order. A read that
  returns an error ends the loop and what it read is dropped (line 130).
\<close>

function reader_loop :: "error \<Rightarrow> string \<Rightarrow> string \<Rightarrow> string list" where
  "reader_loop e prefix' s =
     (case ReadString e s newline of
        ((line, Some err), rest) \<Rightarrow> []
      | ((line, None), rest) \<Rightarrow> (prefix' @ line) # reader_loop e prefix' rest)"
  by pat_completeness auto
termination
  by (relation "measure (\<lambda>(e, p, s). length s)") (auto dest: ReadString_shorter [OF sym])

declare reader_loop.simps [simp del]

subsection \<open>The goroutines, step by step\<close>

text \<open>
  The goroutine of a streaming task (lines 105-155) is at one of these places: before
  \<^verbatim>\<open>StdoutPipe\<close> (line 109), before \<^verbatim>\<open>StderrPipe\<close> (line 114), before \<^verbatim>\<open>Start\<close>
  (line 120), before each of the two \<^verbatim>\<open>go\<close> statements that start the readers
  (lines 125, 137), in \<^verbatim>\<open>command.Wait\<close> (line 149), before the deferred
  \<^verbatim>\<open>wg.Done\<close> (line 106) that runs when the function returns, or finished.
\<close>

datatype place = AtStdoutPipe | AtStderrPipe | AtStart | AtGoStdout | AtGoStderr | AtWait | AtDone
  | Finished

text \<open>
  A reader has not been started, is in its loop with the bytes of its channel it has
  not consumed yet, or has left the loop with those bytes unread.
\<close>

datatype reader = NotStarted | Reading string | Stopped string

record task_state =
  task :: StreamTask
  subproc :: proc
  pc :: place
  exited :: bool
  rd_stdout :: reader
  rd_stderr :: reader

text \<open>
  The command is running, has returned from \<^verbatim>\<open>Run\<close> (then \<^verbatim>\<open>Execute\<close> returns
  \<^verbatim>\<open>nil\<close>, \<^verbatim>\<open>main\<close> returns and the process ends with status 0, whatever the other
  goroutines were doing), or has ended the process with a status.
\<close>

datatype ending = Running | Returned | Exited nat

record state =
  ending :: ending
  wg :: int
  tasks :: "task_state list"
  trace :: "event list"

text \<open>
  One step of the goroutine of task \<open>k\<close>: the new state of the task, the entries it
  logs, and what it adds to the counter of the wait group. \<^verbatim>\<open>command.Wait\<close> returns
  only once the subprocess has exited; until then the step is not enabled.
\<close>

definition task_step :: "nat \<Rightarrow> task_state \<Rightarrow> (task_state \<times> event list \<times> int) option" where
  "task_step k ts =
     (case pc ts of
        AtStdoutPipe \<Rightarrow>
          (case StdoutPipe_err (subproc ts) of
             Some err \<Rightarrow> Some (ts\<lparr>pc := AtDone\<rparr>, [Log (Task k) ErrorLevel (Error err)], 0)
           | None \<Rightarrow> Some (ts\<lparr>pc := AtStderrPipe\<rparr>, [], 0))
      | AtStderrPipe \<Rightarrow>
          (case StderrPipe_err (subproc ts) of
             Some err \<Rightarrow> Some (ts\<lparr>pc := AtDone\<rparr>, [Log (Task k) ErrorLevel (Error err)], 0)
           | None \<Rightarrow> Some (ts\<lparr>pc := AtStart\<rparr>, [], 0))
      | AtStart \<Rightarrow>
          (case Start_err (subproc ts) of
             Some err \<Rightarrow> Some (ts\<lparr>pc := AtDone\<rparr>, [Log (Task k) ErrorLevel (Error err)], 0)
           | None \<Rightarrow> Some (ts\<lparr>pc := AtGoStdout\<rparr>, [Started k (str (task ts))], 0))
      | AtGoStdout \<Rightarrow>
          Some (ts\<lparr>pc := AtGoStderr, rd_stdout := Reading (stdout (subproc ts))\<rparr>, [], 0)
      | AtGoStderr \<Rightarrow>
          Some (ts\<lparr>pc := AtWait, rd_stderr := Reading (stderr (subproc ts))\<rparr>, [], 0)
      | AtWait \<Rightarrow>
          (if exited ts then
             (case Wait_err (subproc ts) of
                Some err \<Rightarrow> Some (ts\<lparr>pc := AtDone\<rparr>, [Log (Task k) ErrorLevel (Error err)], 0)
              | None \<Rightarrow>
                  Some (ts\<lparr>pc := AtDone\<rparr>,
                        [Log (Task k) InfoLevel (prefix (task ts) @ ''exit'')], 0))
           else None)
      | AtDone \<Rightarrow> Some (ts\<lparr>pc := Finished\<rparr>, [], - 1)
      | Finished \<Rightarrow> None)"

definition get_reader :: "channel \<Rightarrow> task_state \<Rightarrow> reader" where
  "get_reader ch ts = (case ch of Stdout \<Rightarrow> rd_stdout ts | Stderr \<Rightarrow> rd_stderr ts)"

definition set_reader :: "channel \<Rightarrow> reader \<Rightarrow> task_state \<Rightarrow> task_state" where
  "set_reader ch r ts = (case ch of Stdout \<Rightarrow> ts\<lparr>rd_stdout := r\<rparr> | Stderr \<Rightarrow> ts\<lparr>rd_stderr := r\<rparr>)"

text \<open>
  The steps of the whole program once the arguments are resolved. The scheduler picks
  the goroutine that moves next:
  \<^item> \<open>Launch\<close>: the command goes once through the body of the inner loop (lines
    95-105) for the next task of \<open>plan\<close>: it logs the pair, logs the command line at
    debug level (printed only in debug mode, line 69), adds 1 to the wait group and
    starts the goroutine. This is one step: nothing another goroutine does in between
    changes what the command does here;
  \<^item> \<open>Step k\<close>: the goroutine of task \<open>k\<close> moves;
  \<^item> \<open>ProcExit k\<close>: the subprocess of task \<open>k\<close>, started and running, exits;
  \<^item> \<open>ReadLine k ch\<close>: a reader of task \<open>k\<close> reads a whole line and logs it;
  \<^item> \<open>ReadStop k ch\<close>: a read of that reader fails (with \<^verbatim>\<open>io.EOF\<close> at the end of the
    stream, or with any other error) and the reader leaves its loop;
  \<^item> \<open>WaitReturn\<close>: both loops are over and \<^verbatim>\<open>wg.Wait()\<close> (line 159) returns, which
    it does only when the counter is 0.
  Nothing moves once the process has ended.
\<close>

datatype action = Launch | Step nat | ProcExit nat | ReadLine nat channel | ReadStop nat channel
  | WaitReturn

definition fire :: "world \<Rightarrow> LogsOptions \<Rightarrow> StreamTask list \<Rightarrow> action \<Rightarrow> state \<Rightarrow> state option" where
  "fire w o' plan a s =
     (if ending s \<noteq> Running then None
      else case a of
        Launch \<Rightarrow>
          (let k = length (tasks s) in
           if k < length plan then
             (let t = plan ! k in
              Some (s\<lparr>wg := wg s + 1,
                      tasks := tasks s @
                        [\<lparr>task = t, subproc = subprocess w k (str t), pc = AtStdoutPipe,
                          exited = False, rd_stdout = NotStarted, rd_stderr = NotStarted\<rparr>],
                      trace := trace s @ [Log Command InfoLevel (pod t @ '' '' @ container t)] @
                        (if Debug o' then [Log Command DebugLevel (str t)] else [])\<rparr>))
           else None)
      | Step k \<Rightarrow>
          (if k < length (tasks s) then
             (case task_step k (tasks s ! k) of
                None \<Rightarrow> None
              | Some (ts, evs, d) \<Rightarrow>
                  Some (s\<lparr>wg := wg s + d, tasks := (tasks s)[k := ts], trace := trace s @ evs\<rparr>))
           else None)
      | ProcExit k \<Rightarrow>
          (if k < length (tasks s) \<and> pc (tasks s ! k) \<in> {AtGoStdout, AtGoStderr, AtWait} \<and>
              \<not> exited (tasks s ! k)
           then Some (s\<lparr>tasks := (tasks s)[k := (tasks s ! k)\<lparr>exited := True\<rparr>]\<rparr>)
           else None)
      | ReadLine k ch \<Rightarrow>
          (if k < length (tasks s) then
             (case get_reader ch (tasks s ! k) of
                Reading bytes \<Rightarrow>
                  (case ReadString EOF bytes newline of
                     ((line, None), rest) \<Rightarrow>
                       Some (s\<lparr>tasks := (tasks s)[k := set_reader ch (Reading rest) (tasks s ! k)],
                               trace := trace s @
                                 [Log (Reader k ch) InfoLevel (prefix (task (tasks s ! k)) @ line)]\<rparr>)
                   | ((line, Some err), rest) \<Rightarrow> None)
              | _ \<Rightarrow> None)
           else None)
      | ReadStop k ch \<Rightarrow>
          (if k < length (tasks s) then
             (case get_reader ch (tasks s ! k) of
                Reading bytes \<Rightarrow>
                  Some (s\<lparr>tasks := (tasks s)[k := set_reader ch (Stopped bytes) (tasks s ! k)]\<rparr>)
              | _ \<Rightarrow> None)
           else None)
      | WaitReturn \<Rightarrow>
          (if length (tasks s) = length plan \<and> wg s = 0 then Some (s\<lparr>ending := Returned\<rparr>)
           else None))"

text \<open>A schedule is the list of the scheduler's choices; a choice that is not enabled
  makes it invalid.\<close>

fun run_schedule :: "world \<Rightarrow> LogsOptions \<Rightarrow> StreamTask list \<Rightarrow> action list \<Rightarrow> state \<Rightarrow> state option" where
  "run_schedule w o' plan [] s = Some s"
| "run_schedule w o' plan (a # as) s =
     (case fire w o' plan a s of None \<Rightarrow> None | Some s' \<Rightarrow> run_schedule w o' plan as s')"

text \<open>
  \<^verbatim>\<open>Run\<close> (lines 67-160) under a schedule: the state the program is in after the
  scheduler's choices, or \<open>None\<close> for an invalid schedule. A fatal error while the
  arguments are resolved ends the process with status 1 before any goroutine exists;
  a panic ends it with status 2. Otherwise the command logs the number of pods (line
  90) and the goroutines start from the state \<open>start\<close>.
\<close>

definition start :: "Pod list \<Rightarrow> state" where
  "start items =
     \<lparr>ending = Running, wg = 0, tasks = [],
      trace = [Log Command InfoLevel (''kubelogs for '' @ itoa (length items) @ '' pod'')]\<rparr>"

definition Run :: "world \<Rightarrow> LogsOptions \<Rightarrow> Flag list \<Rightarrow> string list \<Rightarrow> action list \<Rightarrow> state option" where
  "Run w o' flags args sched =
     (let fg = VisitAll flags [] in
      case resolve_loop w o' 0 args [] of
        Fatalln err \<Rightarrow>
          Some \<lparr>ending = Exited 1, wg = 0, tasks = [],
                trace = [Log Command FatalLevel (Error err)]\<rparr>
      | Panics \<Rightarrow> Some \<lparr>ending = Exited 2, wg = 0, tasks = [], trace = []\<rparr>
      | Returns items \<Rightarrow> run_schedule w o' (pod_tasks o' fg items) sched (start items))"

subsection \<open>The process (\<^verbatim>\<open>src/main.go\<close>)\<close>



section \<open>Notions the properties are stated with\<close>

text \<open>
  The definitions of this section are not code of the repository: they say what the
  properties below are about.
\<close>

subsection \<open>The text of the discovery output\<close>

text \<open>
  The jsonpath template of line 179 prints, for each pod, its name, a space, the names
  of its containers separated by spaces, and a bar. A record is the pair of a pod name
  and its container names; it is well formed when the pod has at least one container
  and no name is empty or holds a space or a bar.
\<close>

fun Join :: "string list \<Rightarrow> string \<Rightarrow> string" where
  "Join [] sep = []"
| "Join [a] sep = a"
| "Join (a # b # bs) sep = a @ sep @ Join (b # bs) sep"

definition record_text :: "string \<times> string list \<Rightarrow> string" where
  "record_text r = fst r @ '' '' @ Join (snd r) '' ''"

definition discovery_output :: "(string \<times> string list) list \<Rightarrow> string" where
  "discovery_output recs = concat (map (\<lambda>r. record_text r @ ''|'') recs)"

definition well_formed_field :: "string \<Rightarrow> bool" where
  "well_formed_field f = (f \<noteq> [] \<and> CHR '' '' \<notin> set f \<and> CHR ''|'' \<notin> set f)"

definition well_formed_record :: "string \<times> string list \<Rightarrow> bool" where
  "well_formed_record r = (well_formed_field (fst r) \<and> snd r \<noteq> [] \<and> list_all well_formed_field (snd r))"

definition record_pod :: "string \<Rightarrow> string \<times> string list \<Rightarrow> Pod" where
  "record_pod cName r = \<lparr>Pod.Name = fst r, Containers = map (\<lambda>c. \<lparr>Container.Name = c\<rparr>) (filter (\<lambda>c. cName = [] \<or> cName = c) (snd r))\<rparr>"

subsection \<open>What a streaming task has to have logged\<close>

text \<open>
  \<open>failure\<close> is the first error the goroutine of a task meets, if any;
  \<open>last_entry\<close> is the entry it logs last: that error, or the exit marker.
  \<open>task_inv\<close> relates the place the goroutine is at to what has happened:
  it has passed a call only if the call gave no error, and it is before
  \<^verbatim>\<open>wg.Done\<close> or finished only if it has logged its last entry and the subprocess,
  if it was started, has exited. \<open>pending\<close> is what the task holds of the wait
  group's counter.
\<close>

definition setup_ok :: "proc \<Rightarrow> bool" where
  "setup_ok p = (StdoutPipe_err p = None \<and> StderrPipe_err p = None \<and> Start_err p = None)"

definition failure :: "proc \<Rightarrow> error option" where
  "failure p =
     (case StdoutPipe_err p of Some e \<Rightarrow> Some e | None \<Rightarrow>
     (case StderrPipe_err p of Some e \<Rightarrow> Some e | None \<Rightarrow>
     (case Start_err p of Some e \<Rightarrow> Some e | None \<Rightarrow> Wait_err p)))"

definition last_entry :: "nat \<Rightarrow> string \<Rightarrow> proc \<Rightarrow> event" where
  "last_entry k pre p =
     (case failure p of
        Some e \<Rightarrow> Log (Task k) ErrorLevel (Error e)
      | None \<Rightarrow> Log (Task k) InfoLevel (pre @ ''exit''))"

definition task_inv :: "nat \<Rightarrow> event list \<Rightarrow> task_state \<Rightarrow> bool" where
  "task_inv k tr ts =
     ((pc ts \<notin> {AtStdoutPipe, AtDone, Finished} \<longrightarrow> StdoutPipe_err (subproc ts) = None) \<and>
      (pc ts \<notin> {AtStdoutPipe, AtStderrPipe, AtDone, Finished} \<longrightarrow>
         StderrPipe_err (subproc ts) = None) \<and>
      (pc ts \<in> {AtGoStdout, AtGoStderr, AtWait} \<longrightarrow> Start_err (subproc ts) = None) \<and>
      (pc ts \<in> {AtDone, Finished} \<longrightarrow>
         last_entry k (prefix (task ts)) (subproc ts) \<in> set tr \<and>
         (setup_ok (subproc ts) \<longrightarrow> exited ts)))"

definition pending :: "task_state \<Rightarrow> int" where
  "pending ts = (if pc ts = Finished then 0 else 1)"

definition state_inv :: "world \<Rightarrow> StreamTask list \<Rightarrow> state \<Rightarrow> bool" where
  "state_inv w plan s =
     (length (tasks s) \<le> length plan \<and>
      (ending s = Running \<or> ending s = Returned) \<and>
      wg s = sum_list (map pending (tasks s)) \<and>
      (ending s = Returned \<longrightarrow> length (tasks s) = length plan \<and> wg s = 0) \<and>
      (\<forall>k < length (tasks s).
         task (tasks s ! k) = plan ! k \<and>
         subproc (tasks s ! k) = subprocess w k (str (plan ! k)) \<and>
         task_inv k (trace s) (tasks s ! k)))"

subsection \<open>What a reader has logged\<close>

text \<open>
  \<open>reader_log k ch tr\<close> are the messages that the reader of channel \<open>ch\<close> of task
  \<open>k\<close> has logged in the trace \<open>tr\<close>, and \<open>unread\<close> are the bytes of the channel
  that the reader has not consumed: all of them before the reader is started. A whole
  line ends with its only newline. \<open>reader_inv\<close> says that a reader is not started
  before its \<^verbatim>\<open>go\<close> statement, and that the bytes of the channel are the whole lines
  that the reader has logged, each after the prefix of the task, followed by the bytes
  it has not consumed.
\<close>

definition channel_bytes :: "channel \<Rightarrow> proc \<Rightarrow> string" where
  "channel_bytes ch p = (case ch of Stdout \<Rightarrow> stdout p | Stderr \<Rightarrow> stderr p)"

definition reader_log :: "nat \<Rightarrow> channel \<Rightarrow> event list \<Rightarrow> string list" where
  "reader_log k ch tr =
     concat (map (\<lambda>ev. case ev of
                          Log og lv msg \<Rightarrow> if og = Reader k ch then [msg] else []
                        | Started j cmd \<Rightarrow> []) tr)"

definition unread :: "string \<Rightarrow> reader \<Rightarrow> string" where
  "unread bytes r = (case r of NotStarted \<Rightarrow> bytes | Reading rest \<Rightarrow> rest | Stopped rest \<Rightarrow> rest)"

definition whole_line :: "string \<Rightarrow> bool" where
  "whole_line l = (l \<noteq> [] \<and> last l = newline \<and> newline \<notin> set (butlast l))"

definition before_go :: "channel \<Rightarrow> place set" where
  "before_go ch =
     (case ch of
        Stdout \<Rightarrow> {AtStdoutPipe, AtStderrPipe, AtStart, AtGoStdout}
      | Stderr \<Rightarrow> {AtStdoutPipe, AtStderrPipe, AtStart, AtGoStdout, AtGoStderr})"

definition go_place :: "channel \<Rightarrow> place" where
  "go_place ch = (case ch of Stdout \<Rightarrow> AtGoStdout | Stderr \<Rightarrow> AtGoStderr)"

definition reader_inv :: "nat \<Rightarrow> event list \<Rightarrow> task_state \<Rightarrow> channel \<Rightarrow> bool" where
  "reader_inv k tr ts ch =
     ((pc ts \<in> before_go ch \<longrightarrow> get_reader ch ts = NotStarted) \<and>
      (\<exists>ls. list_all whole_line ls \<and>
         channel_bytes ch (subproc ts) =
           concat ls @ unread (channel_bytes ch (subproc ts)) (get_reader ch ts) \<and>
         reader_log k ch tr = map (\<lambda>l. prefix (task ts) @ l) ls))"

definition readers_inv :: "state \<Rightarrow> bool" where
  "readers_inv s =
     (\<forall>k ch. (k < length (tasks s) \<longrightarrow> reader_inv k (trace s) (tasks s ! k) ch) \<and>
             (length (tasks s) \<le> k \<longrightarrow> reader_log k ch (trace s) = []))"

subsection \<open>Fatal conditions\<close>

text \<open>
  The \<open>k\<close>-th argument meets a fatal condition when its discovery invocation fails
  or it does not compile. A command line meets one when \<^verbatim>\<open>Run\<close> is called and one
  of the arguments does.
\<close>

definition fatal_at :: "world \<Rightarrow> LogsOptions \<Rightarrow> nat \<Rightarrow> string \<Rightarrow> bool" where
  "fatal_at w o' k arg =
     (isl (CombinedOutput w k (get_pod_command (Namespace o'))) \<or> isl (regexp_Compile w arg))"


subsection \<open>A drained channel\<close>


subsection \<open>A schedule that ends\<close>




subsection \<open>Worlds for the examples\<close>

text \<open>
  \<open>quiet\<close> is a subprocess that writes nothing and exits with status 0. In
  \<open>example_world out procs\<close> every discovery invocation writes \<open>out\<close>, the
  \<open>k\<close>-th streaming task gets the subprocess \<open>procs k\<close>, and the patterns are
  literals.
\<close>

definition quiet :: proc where
  "quiet = \<lparr>StdoutPipe_err = None, StderrPipe_err = None, Start_err = None, stdout = [],
            stderr = [], Wait_err = None\<rparr>"

definition example_world :: "string \<Rightarrow> (nat \<Rightarrow> proc) \<Rightarrow> world" where
  "example_world out procs =
     \<lparr>regexp_Compile = literal_regexp, CombinedOutput = (\<lambda>k cmd. Inr out),
      subprocess = (\<lambda>k cmd. procs k)\<rparr>"

definition pod_a_web :: Pod where
  "pod_a_web = \<lparr>Pod.Name = ''pod-a'', Containers = [\<lparr>Container.Name = ''web''\<rparr>]\<rparr>"

text \<open>
  A run with two tasks: the command line is \<^verbatim>\<open>kubelogs pod-a --follow\<close>, so the
  options are those of \<open>NewLogsOptions\<close> and the only flag set is \<^verbatim>\<open>follow\<close>. The
  subprocess of the first task writes one line and exits with status 0; the subprocess
  of the second exits with status 1. Under the schedule \<open>hasty\<close> no reader is ever
  scheduled before the command returns: \<open>hasty_end\<close> is the state the run ends in.
\<close>

definition hello :: proc where
  "hello = quiet\<lparr>stdout := ''hello'' @ [newline]\<rparr>"

definition failing :: proc where
  "failing = quiet\<lparr>Wait_err := Some (Err ''exit status 1'')\<rparr>"

definition two_tasks :: world where
  "two_tasks = example_world ''pod-a web sidecar|pod-b web|'' (\<lambda>k. if k = 0 then hello else failing)"

definition follow_set :: "Flag list" where
  "follow_set = [\<lparr>Flag.Name = ''follow'', Value = ''true'', Changed = True\<rparr>,
                 \<lparr>Flag.Name = ''help'', Value = ''false'', Changed = False\<rparr>]"

definition hasty :: "action list" where
  "hasty = [Launch, Launch,
            Step 0, Step 0, Step 0, Step 0, Step 0, ProcExit 0, Step 0, Step 0,
            Step 1, Step 1, Step 1, Step 1, Step 1, ProcExit 1, Step 1, Step 1,
            WaitReturn]"

definition web_task :: StreamTask where
  "web_task = \<lparr>pod = ''pod-a'', container = ''web'',
     str = ''kubectl logs pod-a  --follow=true --container web'', prefix = ''[pod-a web]''\<rparr>"

definition sidecar_task :: StreamTask where
  "sidecar_task = \<lparr>pod = ''pod-a'', container = ''sidecar'',
     str = ''kubectl logs pod-a  --follow=true --container sidecar'',
     prefix = ''[pod-a sidecar]''\<rparr>"

definition hasty_end :: state where
  "hasty_end =
     \<lparr>ending = Returned, wg = 0,
      tasks =
        [\<lparr>task = web_task, subproc = hello, pc = Finished, exited = True,
          rd_stdout = Reading (''hello'' @ [newline]), rd_stderr = Reading []\<rparr>,
         \<lparr>task = sidecar_task, subproc = failing, pc = Finished, exited = True,
          rd_stdout = Reading [], rd_stderr = Reading []\<rparr>],
      trace =
        [Log Command InfoLevel ''kubelogs for 1 pod'',
         Log Command InfoLevel ''pod-a web'',
         Log Command InfoLevel ''pod-a sidecar'',
         Started 0 ''kubectl logs pod-a  --follow=true --container web'',
         Log (Task 0) InfoLevel ''[pod-a web]exit'',
         Started 1 ''kubectl logs pod-a  --follow=true --container sidecar'',
         Log (Task 1) ErrorLevel ''exit status 1'']\<rparr>"







section \<open>Properties of the resolver\<close>

lemma split_from_nonempty: "split_from sep cur s \<noteq> []"
  by (induction s arbitrary: cur) auto

lemma strings_Split_nonempty: "strings_Split s sep \<noteq> []"
  by (simp add: strings_Split_def split_from_nonempty)


lemma container_loop_filter:
  "container_loop cName cs acc = acc @ map (\<lambda>c. \<lparr>Container.Name = c\<rparr>) (filter (\<lambda>c. cName = [] \<or> cName = c) cs)"
  by (induction cs arbitrary: acc) auto

lemma split_from_no_sep: "sep \<notin> set a \<Longrightarrow> split_from sep cur a = [cur @ a]"
  by (induction a arbitrary: cur) auto

lemma split_from_sep: "sep \<notin> set a \<Longrightarrow> split_from sep cur (a @ sep # rest) = (cur @ a) # split_from sep [] rest"
  by (induction a arbitrary: cur) auto

lemma Join_no_bar: "list_all well_formed_field cs \<Longrightarrow> CHR ''|'' \<notin> set (Join cs '' '')"
  by (induction cs "'' ''" rule: Join.induct) (auto simp: well_formed_field_def)

lemma record_text_no_bar: "well_formed_record r \<Longrightarrow> CHR ''|'' \<notin> set (record_text r)"
  by (auto simp: well_formed_record_def record_text_def well_formed_field_def dest: Join_no_bar)

lemma split_discovery_output:
  "list_all well_formed_record recs \<Longrightarrow>
   strings_Split (discovery_output recs) CHR ''|'' = map record_text recs @ [[]]"
proof (induction recs)
  case Nil
  then show ?case by (simp add: discovery_output_def strings_Split_def)
next
  case (Cons r recs)
  then have nb: "CHR ''|'' \<notin> set (record_text r)" by (simp add: record_text_no_bar)
  have "discovery_output (r # recs) = record_text r @ CHR ''|'' # discovery_output recs"
    by (simp add: discovery_output_def)
  with Cons nb show ?case
    by (simp add: strings_Split_def split_from_sep)
qed

lemma split_Join:
  "list_all well_formed_field cs \<Longrightarrow> cs \<noteq> [] \<Longrightarrow> split_from CHR '' '' [] (Join cs '' '') = cs"
proof (induction cs "'' ''" rule: Join.induct)
  case 1
  then show ?case by simp
next
  case (2 a)
  then show ?case by (simp add: split_from_no_sep well_formed_field_def)
next
  case (3 a b bs)
  then have "CHR '' '' \<notin> set a" by (simp add: well_formed_field_def)
  then have "split_from CHR '' '' [] (a @ CHR '' '' # Join (b # bs) '' '') = a # split_from CHR '' '' [] (Join (b # bs) '' '')"
    using split_from_sep [of "CHR '' ''" a "[]"] by simp
  with 3 show ?case by simp
qed

lemma split_record_text:
  assumes "well_formed_record r"
  shows "strings_Split (record_text r) CHR '' '' = fst r # snd r"
proof -
  from assms have ns: "CHR '' '' \<notin> set (fst r)" and cs: "list_all well_formed_field (snd r)" "snd r \<noteq> []"
    by (simp_all add: well_formed_record_def well_formed_field_def)
  have "split_from CHR '' '' [] (fst r @ CHR '' '' # Join (snd r) '' '') = fst r # split_from CHR '' '' [] (Join (snd r) '' '')"
    using split_from_sep [OF ns, of "[]"] by simp
  with cs show ?thesis
    by (simp add: strings_Split_def record_text_def split_Join)
qed

lemma pod_loop_records:
  "list_all well_formed_record recs \<Longrightarrow>
   pod_loop pr cName (map record_text recs @ tl') items =
   pod_loop pr cName tl' (items @ map (record_pod cName) (filter (\<lambda>r. pr (fst r)) recs))"
proof (induction recs arbitrary: items)
  case Nil
  then show ?case by simp
next
  case (Cons r recs)
  then show ?case
    by (simp add: split_record_text container_loop_filter record_pod_def)
qed

lemma pod_loop_empty_piece:
  "pod_loop pr cName [[]] items = Returns (items @ (if pr [] then [\<lparr>Pod.Name = [], Containers = []\<rparr>] else []))"
  by (simp add: strings_Split_def)

text \<open>
  On a discovery output of well-formed records, resolved with a pattern that compiles:
  the pods returned are those of the records whose name matches, in order, each with
  its containers filtered, followed by one pod with the empty name and no container if
  the pattern matches the empty text.
\<close>

lemma cmdGetPods_well_formed:
  assumes "CombinedOutput w k (get_pod_command ns) = Inr (discovery_output recs)"
    and "list_all well_formed_record recs"
    and "regexp_Compile w pat = Inr pr"
  shows "cmdGetPods w k pat cName ns =
     Returns (Inr \<lparr>Items = map (record_pod cName) (filter (\<lambda>r. pr (fst r)) recs) @
                            (if pr [] then [\<lparr>Pod.Name = [], Containers = []\<rparr>] else [])\<rparr>)"
proof -
  have "pod_loop pr cName (strings_Split (discovery_output recs) CHR ''|'') [] =
        pod_loop pr cName [[]] ([] @ map (record_pod cName) (filter (\<lambda>r. pr (fst r)) recs))"
    using assms(2) by (simp only: split_discovery_output pod_loop_records)
  also have "\<dots> = Returns (map (record_pod cName) (filter (\<lambda>r. pr (fst r)) recs) @
                            (if pr [] then [\<lparr>Pod.Name = [], Containers = []\<rparr>] else []))"
    by (simp only: pod_loop_empty_piece append_Nil)
  finally show ?thesis
    using assms(1,3) by (simp add: cmdGetPods_def)
qed

lemma cmdGetPods_matching_records:
  assumes "CombinedOutput w k (get_pod_command ns) = Inr (discovery_output recs)"
    and "list_all well_formed_record recs"
    and "regexp_Compile w pat = Inr pr"
    and "\<not> pr []"
  shows "\<exists>pods. cmdGetPods w k pat cName ns = Returns (Inr pods) \<and>
     Items pods = map (record_pod cName) (filter (\<lambda>r. pr (fst r)) recs) \<and>
     length (Items pods) \<le> length recs"
  using cmdGetPods_well_formed [OF assms(1-3), of cName] assms(4) by simp

lemma pod_loop_returns: "\<exists>items'. pod_loop pr cName ps items = Returns items'"
proof (induction ps arbitrary: items)
  case Nil
  then show ?case by simp
next
  case (Cons p ps)
  obtain c0 rest where "strings_Split p CHR '' '' = c0 # rest"
    using strings_Split_nonempty [of p "CHR '' ''"] by (cases "strings_Split p CHR '' ''") auto
  with Cons show ?case by simp
qed

lemma cmdGetPods_outcome:
  "(fatal_at w o' k arg \<and>
      (\<exists>err. cmdGetPods w k arg (Container o') (Namespace o') = Returns (Inl err) \<or>
             cmdGetPods w k arg (Container o') (Namespace o') = Fatalln err)) \<or>
   (\<not> fatal_at w o' k arg \<and>
      (\<exists>p. cmdGetPods w k arg (Container o') (Namespace o') = Returns (Inr p)))"
proof (cases "CombinedOutput w k (get_pod_command (Namespace o'))")
  case (Inl err)
  then show ?thesis by (simp add: cmdGetPods_def fatal_at_def)
next
  case (Inr out)
  show ?thesis
  proof (cases "regexp_Compile w arg")
    case (Inl err)
    with Inr show ?thesis by (simp add: cmdGetPods_def fatal_at_def)
  next
    case (Inr pr)
    obtain items where "pod_loop pr (Container o') (strings_Split out CHR ''|'') [] = Returns items"
      using pod_loop_returns by blast
    with Inr \<open>CombinedOutput w k (get_pod_command (Namespace o')) = Inr out\<close> show ?thesis
      by (simp add: cmdGetPods_def fatal_at_def)
  qed
qed

lemma resolve_loop_outcome:
  "((\<exists>k < length args. fatal_at w o' (k0 + k) (args ! k)) \<and>
      (\<exists>err. resolve_loop w o' k0 args items = Fatalln err)) \<or>
   (\<not> (\<exists>k < length args. fatal_at w o' (k0 + k) (args ! k)) \<and>
      (\<exists>items'. resolve_loop w o' k0 args items = Returns items'))"
proof (induction args arbitrary: k0 items)
  case Nil
  then show ?case by simp
next
  case (Cons arg args)
  have shift: "(\<exists>k < length (arg # args). fatal_at w o' (k0 + k) ((arg # args) ! k)) \<longleftrightarrow>
      fatal_at w o' k0 arg \<or> (\<exists>k < length args. fatal_at w o' (Suc k0 + k) (args ! k))"
    by (simp add: Ex_less_Suc2)
  consider (fatal) err where "fatal_at w o' k0 arg"
      "cmdGetPods w k0 arg (Container o') (Namespace o') = Returns (Inl err) \<or>
       cmdGetPods w k0 arg (Container o') (Namespace o') = Fatalln err"
    | (ok) p where "\<not> fatal_at w o' k0 arg"
      "cmdGetPods w k0 arg (Container o') (Namespace o') = Returns (Inr p)"
    using cmdGetPods_outcome [of w o' k0 arg] by blast
  then show ?case
  proof cases
    case fatal
    then show ?thesis unfolding shift by auto
  next
    case ok
    with Cons.IH [of "Suc k0" "items @ Items p"] show ?thesis unfolding shift by simp
  qed
qed

lemma resolve_loop_append:
  "resolve_loop w o' k (as @ bs) items =
     (case resolve_loop w o' k as items of
        Returns items' \<Rightarrow> resolve_loop w o' (k + length as) bs items'
      | Fatalln err \<Rightarrow> Fatalln err
      | Panics \<Rightarrow> Panics)"
proof (induction as arbitrary: k items)
  case Nil
  then show ?case by simp
next
  case (Cons a as)
  show ?case
  proof (cases "cmdGetPods w k a (Container o') (Namespace o')")
    case (Returns r)
    with Cons [of "Suc k"] show ?thesis by (cases r) (simp_all split: outcome.splits)
  next
    case (Fatalln err)
    then show ?thesis by simp
  next
    case Panics
    then show ?thesis by simp
  qed
qed

lemma resolve_loop_items:
  "resolve_loop w o' k args items = Returns items' \<Longrightarrow>
   \<exists>found. items' = items @ found \<and> resolve_loop w o' k args [] = Returns found"
proof (induction args arbitrary: k items items')
  case Nil
  then show ?case by simp
next
  case (Cons a args)
  from Cons.prems obtain p where p: "cmdGetPods w k a (Container o') (Namespace o') = Returns (Inr p)"
    and rest: "resolve_loop w o' (Suc k) args (items @ Items p) = Returns items'"
    by (auto split: outcome.splits sum.splits)
  from Cons.IH [OF rest] obtain f1 where f1: "items' = (items @ Items p) @ f1"
    "resolve_loop w o' (Suc k) args [] = Returns f1" by blast
  have "\<exists>f2. resolve_loop w o' (Suc k) args (Items p) = Returns f2"
    using resolve_loop_outcome [of args w o' "Suc k" "Items p"]
      resolve_loop_outcome [of args w o' "Suc k" "[]"] f1(2) by auto
  then obtain f2 where f2: "resolve_loop w o' (Suc k) args (Items p) = Returns f2" ..
  from Cons.IH [OF f2] f1(2) have "f2 = Items p @ f1" by auto
  with p f1 f2 show ?case by simp
qed

subsection \<open>The literal patterns of the examples\<close>

lemma literal_pod_a: "literal_regexp ''pod-a'' = Inr (\<lambda>s. Contains s ''pod-a'')"
  by (simp add: literal_regexp_def literal_byte_def special_bytes_def)

lemma literal_pod: "literal_regexp ''pod'' = Inr (\<lambda>s. Contains s ''pod'')"
  by (simp add: literal_regexp_def literal_byte_def special_bytes_def)

lemma literal_a: "literal_regexp ''a'' = Inr (\<lambda>s. Contains s ''a'')"
  by (simp add: literal_regexp_def literal_byte_def special_bytes_def)

lemma literal_empty: "literal_regexp [] = Inr (\<lambda>s. Contains s [])"
  by (simp add: literal_regexp_def)

lemma resolve_pod: "cmdGetPods (example_world ''pod-a web|'' (\<lambda>k. quiet)) k ''pod'' [] ''default'' =
    Returns (Inr \<lparr>Items = [pod_a_web]\<rparr>)"
  by (simp add: cmdGetPods_def example_world_def literal_pod strings_Split_def pod_a_web_def)

lemma resolve_a: "cmdGetPods (example_world ''pod-a web|'' (\<lambda>k. quiet)) k ''a'' [] ''default'' =
    Returns (Inr \<lparr>Items = [pod_a_web]\<rparr>)"
  by (simp add: cmdGetPods_def example_world_def literal_a strings_Split_def pod_a_web_def)

section \<open>Properties of the command lines and of the readers\<close>

lemma VisitAll_filter:
  "VisitAll flags fg = fg @ concat (map (\<lambda>flag. '' --'' @ Flag.Name flag @ ''='' @ Value flag)
     (filter (\<lambda>flag. Changed flag \<and> Flag.Name flag \<noteq> ''help'' \<and> Flag.Name flag \<noteq> ''debug'') flags))"
  by (induction flags arbitrary: fg) auto

lemma container_tasks_map: "container_tasks o' fg p cs = map (new_task o' fg p) cs"
  by (induction cs) auto

lemma pod_tasks_concat:
  "pod_tasks o' fg pods = concat (map (\<lambda>p. map (new_task o' fg p) (Containers p)) pods)"
  by (induction pods) (auto simp: container_tasks_map)

lemma str_new_task:
  "str (new_task o' fg p c) =
     ''kubectl logs '' @ Pod.Name p @ '' '' @ fg @
     (if Container o' = [] then '' --container '' @ Container.Name c else [])"
  by (simp add: new_task_def Let_def)

lemma ReadString_line:
  "ReadString e s d = ((line, None), rest) \<Longrightarrow>
   \<exists>body. line = body @ [d] \<and> d \<notin> set body \<and> s = line @ rest"
proof (induction s arbitrary: line)
  case Nil
  then show ?case by simp
next
  case (Cons c s)
  show ?case
  proof (cases "c = d")
    case True
    with Cons.prems show ?thesis by auto
  next
    case False
    with Cons.prems obtain l where l: "ReadString e s d = ((l, None), rest)" "line = c # l"
      by (auto split: prod.splits)
    from Cons.IH [OF l(1)] obtain body where "l = body @ [d]" "d \<notin> set body" "s = l @ rest"
      by blast
    with l(2) False show ?thesis by (intro exI [of _ "c # body"]) simp
  qed
qed

lemma ReadString_end:
  "ReadString e s d = ((line, Some err), rest) \<Longrightarrow> d \<notin> set s \<and> line = s \<and> err = e"
proof (induction s arbitrary: line)
  case Nil
  then show ?case by simp
next
  case (Cons c s)
  show ?case
  proof (cases "c = d")
    case True
    with Cons.prems show ?thesis by simp
  next
    case False
    with Cons.prems obtain l where l: "ReadString e s d = ((l, Some err), rest)" "line = c # l"
      by (auto split: prod.splits)
    from Cons.IH [OF l(1)] l(2) False show ?thesis by simp
  qed
qed

lemma reader_loop_line:
  "ReadString e s newline = ((line, None), rest) \<Longrightarrow>
   reader_loop e prefix' s = (prefix' @ line) # reader_loop e prefix' rest"
  by (subst reader_loop.simps) (simp only: prod.case option.case)

lemma reader_loop_end:
  "ReadString e s newline = ((line, Some err), rest) \<Longrightarrow> reader_loop e prefix' s = []"
  by (subst reader_loop.simps) (simp only: prod.case option.case)

section \<open>Properties of the goroutines\<close>

lemma task_inv_mono: "task_inv k tr ts \<Longrightarrow> task_inv k (tr @ evs) ts"
  by (auto simp: task_inv_def)

lemma task_step_frame:
  assumes "task_step k ts = Some (ts', evs, d)"
  shows "task ts' = task ts \<and> subproc ts' = subproc ts \<and> pending ts' = pending ts + d"
  using assms
  by (cases "pc ts") (auto simp: task_step_def pending_def split: option.splits if_splits)

lemma last_entry_failed:
  "failure p = Some e \<Longrightarrow> last_entry k pre p = Log (Task k) ErrorLevel (Error e)"
  by (simp add: last_entry_def)

lemma last_entry_exit:
  "failure p = None \<Longrightarrow> last_entry k pre p = Log (Task k) InfoLevel (pre @ ''exit'')"
  by (simp add: last_entry_def)

lemma task_step_task_inv:
  assumes st: "task_step k ts = Some (ts', evs, d)" and inv: "task_inv k tr ts"
  shows "task_inv k (tr @ evs) ts'"
proof (cases "pc ts")
  case AtStdoutPipe
  show ?thesis
  proof (cases "StdoutPipe_err (subproc ts)")
    case None
    with st AtStdoutPipe show ?thesis by (auto simp: task_step_def task_inv_def)
  next
    case (Some e)
    then have "failure (subproc ts) = Some e" by (simp add: failure_def)
    with st AtStdoutPipe Some show ?thesis
      by (auto simp: task_step_def task_inv_def last_entry_failed setup_ok_def)
  qed
next
  case AtStderrPipe
  with inv have out: "StdoutPipe_err (subproc ts) = None" by (simp add: task_inv_def)
  show ?thesis
  proof (cases "StderrPipe_err (subproc ts)")
    case None
    with st AtStderrPipe out show ?thesis by (auto simp: task_step_def task_inv_def)
  next
    case (Some e)
    with out have "failure (subproc ts) = Some e" by (simp add: failure_def)
    with st AtStderrPipe Some show ?thesis
      by (auto simp: task_step_def task_inv_def last_entry_failed setup_ok_def)
  qed
next
  case AtStart
  with inv have out: "StdoutPipe_err (subproc ts) = None" "StderrPipe_err (subproc ts) = None"
    by (simp_all add: task_inv_def)
  show ?thesis
  proof (cases "Start_err (subproc ts)")
    case None
    with st AtStart out show ?thesis by (auto simp: task_step_def task_inv_def)
  next
    case (Some e)
    with out have "failure (subproc ts) = Some e" by (simp add: failure_def)
    with st AtStart Some show ?thesis
      by (auto simp: task_step_def task_inv_def last_entry_failed setup_ok_def)
  qed
next
  case AtGoStdout
  with st inv show ?thesis by (auto simp: task_step_def task_inv_def)
next
  case AtGoStderr
  with st inv show ?thesis by (auto simp: task_step_def task_inv_def)
next
  case AtWait
  with inv have ok: "StdoutPipe_err (subproc ts) = None" "StderrPipe_err (subproc ts) = None"
    "Start_err (subproc ts) = None"
    by (simp_all add: task_inv_def)
  from st AtWait have ex: "exited ts" by (simp add: task_step_def split: if_splits)
  show ?thesis
  proof (cases "Wait_err (subproc ts)")
    case None
    with ok have "failure (subproc ts) = None" by (simp add: failure_def)
    with st AtWait None ex show ?thesis
      by (auto simp: task_step_def task_inv_def last_entry_exit)
  next
    case (Some e)
    with ok have "failure (subproc ts) = Some e" by (simp add: failure_def)
    with st AtWait Some ex show ?thesis
      by (auto simp: task_step_def task_inv_def last_entry_failed)
  qed
next
  case AtDone
  with st inv show ?thesis by (auto simp: task_step_def task_inv_def)
next
  case Finished
  with st show ?thesis by (simp add: task_step_def)
qed

lemma task_step_inv:
  assumes "task_step k ts = Some (ts', evs, d)" and "task_inv k tr ts"
  shows "task_inv k (tr @ evs) ts' \<and> task ts' = task ts \<and> subproc ts' = subproc ts \<and>
         pending ts' = pending ts + d"
  using assms task_step_frame task_step_task_inv by blast

lemma sum_list_update_int:
  "k < length xs \<Longrightarrow> sum_list (xs[k := x]) = sum_list xs + x - (xs ! k :: int)"
  by (induction xs arbitrary: k) (auto split: nat.splits)

lemma set_reader_frame:
  "task (set_reader ch r ts) = task ts \<and> subproc (set_reader ch r ts) = subproc ts \<and>
   pc (set_reader ch r ts) = pc ts \<and> exited (set_reader ch r ts) = exited ts"
  by (cases ch) (simp_all add: set_reader_def)

lemma set_reader_inv: "task_inv k tr (set_reader ch r ts) = task_inv k tr ts"
  by (cases ch) (simp_all add: set_reader_def task_inv_def)

lemma set_reader_pending: "pending (set_reader ch r ts) = pending ts"
  by (simp add: pending_def set_reader_frame)

lemma exited_inv: "task_inv k tr ts \<Longrightarrow> task_inv k tr (ts\<lparr>exited := True\<rparr>)"
  by (simp add: task_inv_def)

lemma update_task_inv:
  assumes inv: "state_inv w plan s" and k: "k < length (tasks s)" and run: "ending s = Running"
    and ts: "task_inv k (trace s @ evs) ts" "task ts = task (tasks s ! k)"
      "subproc ts = subproc (tasks s ! k)" "pending ts = pending (tasks s ! k) + d"
  shows "state_inv w plan (s\<lparr>wg := wg s + d, tasks := (tasks s)[k := ts], trace := trace s @ evs\<rparr>)"
proof -
  have sum: "sum_list (map pending ((tasks s)[k := ts])) = sum_list (map pending (tasks s)) + d"
    using k ts(4) by (simp add: map_update sum_list_update_int)
  have each: "task (((tasks s)[k := ts]) ! j) = plan ! j \<and>
      subproc (((tasks s)[k := ts]) ! j) = subprocess w j (str (plan ! j)) \<and>
      task_inv j (trace s @ evs) (((tasks s)[k := ts]) ! j)" if "j < length (tasks s)" for j
  proof (cases "j = k")
    case True
    with inv k ts show ?thesis by (simp add: state_inv_def)
  next
    case False
    with inv that show ?thesis by (simp add: state_inv_def task_inv_mono)
  qed
  from inv run sum each show ?thesis
    by (simp add: state_inv_def)
qed

lemma fire_Launch:
  "fire w o' plan Launch s =
     (if ending s = Running \<and> length (tasks s) < length plan then
        Some (s\<lparr>wg := wg s + 1,
                tasks := tasks s @
                  [\<lparr>task = plan ! length (tasks s),
                    subproc = subprocess w (length (tasks s)) (str (plan ! length (tasks s))),
                    pc = AtStdoutPipe, exited = False, rd_stdout = NotStarted,
                    rd_stderr = NotStarted\<rparr>],
                trace := trace s @
                  [Log Command InfoLevel
                     (pod (plan ! length (tasks s)) @ '' '' @ container (plan ! length (tasks s)))] @
                  (if Debug o' then [Log Command DebugLevel (str (plan ! length (tasks s)))]
                   else [])\<rparr>)
      else None)"
  by (simp add: fire_def Let_def)

lemma fire_Step:
  "fire w o' plan (Step k) s =
     (if ending s = Running \<and> k < length (tasks s) then
        (case task_step k (tasks s ! k) of
           None \<Rightarrow> None
         | Some (ts, evs, d) \<Rightarrow>
             Some (s\<lparr>wg := wg s + d, tasks := (tasks s)[k := ts], trace := trace s @ evs\<rparr>))
      else None)"
  by (simp add: fire_def)

lemma fire_ProcExit:
  "fire w o' plan (ProcExit k) s =
     (if ending s = Running \<and> k < length (tasks s) \<and>
         pc (tasks s ! k) \<in> {AtGoStdout, AtGoStderr, AtWait} \<and> \<not> exited (tasks s ! k)
      then Some (s\<lparr>tasks := (tasks s)[k := (tasks s ! k)\<lparr>exited := True\<rparr>]\<rparr>)
      else None)"
  by (simp add: fire_def)

lemma fire_ReadLine:
  "fire w o' plan (ReadLine k ch) s =
     (if ending s = Running \<and> k < length (tasks s) then
        (case get_reader ch (tasks s ! k) of
           Reading bytes \<Rightarrow>
             (case ReadString EOF bytes newline of
                ((line, None), rest) \<Rightarrow>
                  Some (s\<lparr>tasks := (tasks s)[k := set_reader ch (Reading rest) (tasks s ! k)],
                          trace := trace s @
                            [Log (Reader k ch) InfoLevel (prefix (task (tasks s ! k)) @ line)]\<rparr>)
              | ((line, Some err), rest) \<Rightarrow> None)
         | _ \<Rightarrow> None)
      else None)"
  by (simp add: fire_def)

lemma fire_ReadStop:
  "fire w o' plan (ReadStop k ch) s =
     (if ending s = Running \<and> k < length (tasks s) then
        (case get_reader ch (tasks s ! k) of
           Reading bytes \<Rightarrow>
             Some (s\<lparr>tasks := (tasks s)[k := set_reader ch (Stopped bytes) (tasks s ! k)]\<rparr>)
         | _ \<Rightarrow> None)
      else None)"
  by (simp add: fire_def)

lemma fire_WaitReturn:
  "fire w o' plan WaitReturn s =
     (if ending s = Running \<and> length (tasks s) = length plan \<and> wg s = 0
      then Some (s\<lparr>ending := Returned\<rparr>) else None)"
  by (simp add: fire_def)

lemma fire_Launch_inv:
  assumes "fire w o' plan Launch s = Some s'" and inv: "state_inv w plan s"
  shows "state_inv w plan s'"
proof -
  let ?k = "length (tasks s)"
  let ?t = "plan ! ?k"
  let ?new = "\<lparr>task = ?t, subproc = subprocess w ?k (str ?t), pc = AtStdoutPipe,
                exited = False, rd_stdout = NotStarted, rd_stderr = NotStarted\<rparr>"
  from assms(1) obtain evs where run: "ending s = Running" and lt: "?k < length plan"
    and s': "s' = s\<lparr>wg := wg s + 1, tasks := tasks s @ [?new], trace := trace s @ evs\<rparr>"
    by (auto simp: fire_Launch split: if_splits)
  have new: "task_inv ?k (trace s @ evs) ?new" "pending ?new = 1"
    by (simp_all add: task_inv_def pending_def)
  have each: "task ((tasks s @ [?new]) ! j) = plan ! j \<and>
      subproc ((tasks s @ [?new]) ! j) = subprocess w j (str (plan ! j)) \<and>
      task_inv j (trace s @ evs) ((tasks s @ [?new]) ! j)" if "j < Suc ?k" for j
  proof (cases "j = ?k")
    case True
    with new show ?thesis by simp
  next
    case False
    with that have "j < ?k" by simp
    with inv show ?thesis by (simp add: state_inv_def nth_append task_inv_mono)
  qed
  from inv run lt new each show ?thesis
    by (simp add: s' state_inv_def)
qed

lemma fire_Step_inv:
  assumes "fire w o' plan (Step k) s = Some s'" and inv: "state_inv w plan s"
  shows "state_inv w plan s'"
proof -
  from assms(1) obtain ts evs d where k: "k < length (tasks s)" and run: "ending s = Running"
    and st: "task_step k (tasks s ! k) = Some (ts, evs, d)"
    and s': "s' = s\<lparr>wg := wg s + d, tasks := (tasks s)[k := ts], trace := trace s @ evs\<rparr>"
    by (auto simp: fire_Step split: if_splits option.splits)
  from inv k have "task_inv k (trace s) (tasks s ! k)" by (simp add: state_inv_def)
  from task_step_inv [OF st this] show ?thesis
    unfolding s' by (intro update_task_inv [OF inv k run]) simp_all
qed

lemma fire_ProcExit_inv:
  assumes "fire w o' plan (ProcExit k) s = Some s'" and inv: "state_inv w plan s"
  shows "state_inv w plan s'"
proof -
  let ?ts = "(tasks s ! k)\<lparr>exited := True\<rparr>"
  from assms(1) have k: "k < length (tasks s)" and run: "ending s = Running"
    and s': "s' = s\<lparr>wg := wg s + 0, tasks := (tasks s)[k := ?ts], trace := trace s @ []\<rparr>"
    by (auto simp: fire_ProcExit split: if_splits)
  from inv k have "task_inv k (trace s) (tasks s ! k)" by (simp add: state_inv_def)
  then have "task_inv k (trace s @ []) ?ts" by (simp add: exited_inv)
  then show ?thesis
    unfolding s' by (intro update_task_inv [OF inv k run]) (simp_all add: pending_def)
qed

lemma fire_ReadLine_inv:
  assumes "fire w o' plan (ReadLine k ch) s = Some s'" and inv: "state_inv w plan s"
  shows "state_inv w plan s'"
proof -
  from assms(1) obtain r evs where k: "k < length (tasks s)" and run: "ending s = Running"
    and s': "s' = s\<lparr>wg := wg s + 0, tasks := (tasks s)[k := set_reader ch r (tasks s ! k)],
                    trace := trace s @ evs\<rparr>"
    by (auto simp: fire_ReadLine split: if_splits reader.splits prod.splits option.splits)
  from inv k have "task_inv k (trace s) (tasks s ! k)" by (simp add: state_inv_def)
  then have "task_inv k (trace s @ evs) (set_reader ch r (tasks s ! k))"
    by (simp add: set_reader_inv task_inv_mono)
  then show ?thesis
    unfolding s'
    by (intro update_task_inv [OF inv k run]) (simp_all add: set_reader_frame set_reader_pending)
qed

lemma fire_ReadStop_inv:
  assumes "fire w o' plan (ReadStop k ch) s = Some s'" and inv: "state_inv w plan s"
  shows "state_inv w plan s'"
proof -
  from assms(1) obtain r where k: "k < length (tasks s)" and run: "ending s = Running"
    and s': "s' = s\<lparr>wg := wg s + 0, tasks := (tasks s)[k := set_reader ch r (tasks s ! k)],
                    trace := trace s @ []\<rparr>"
    by (auto simp: fire_ReadStop split: if_splits reader.splits)
  from inv k have "task_inv k (trace s) (tasks s ! k)" by (simp add: state_inv_def)
  then have "task_inv k (trace s @ []) (set_reader ch r (tasks s ! k))"
    by (simp add: set_reader_inv)
  then show ?thesis
    unfolding s'
    by (intro update_task_inv [OF inv k run]) (simp_all add: set_reader_frame set_reader_pending)
qed

lemma fire_WaitReturn_inv:
  assumes "fire w o' plan WaitReturn s = Some s'" and "state_inv w plan s"
  shows "state_inv w plan s'"
  using assms by (auto simp: fire_WaitReturn state_inv_def split: if_splits)

lemma fire_inv:
  assumes "fire w o' plan a s = Some s'" and "state_inv w plan s"
  shows "state_inv w plan s'"
proof (cases a)
  case Launch
  with assms show ?thesis by (simp add: fire_Launch_inv)
next
  case (Step k)
  with assms show ?thesis by (simp add: fire_Step_inv)
next
  case (ProcExit k)
  with assms show ?thesis by (simp add: fire_ProcExit_inv)
next
  case (ReadLine k ch)
  with assms show ?thesis by (simp add: fire_ReadLine_inv)
next
  case (ReadStop k ch)
  with assms show ?thesis by (simp add: fire_ReadStop_inv)
next
  case WaitReturn
  with assms show ?thesis by (simp add: fire_WaitReturn_inv)
qed

lemma run_schedule_inv:
  "run_schedule w o' plan sched s = Some s' \<Longrightarrow> state_inv w plan s \<Longrightarrow> state_inv w plan s'"
proof (induction sched arbitrary: s)
  case Nil
  then show ?case by simp
next
  case (Cons a sched)
  then obtain s1 where "fire w o' plan a s = Some s1" "run_schedule w o' plan sched s1 = Some s'"
    by (auto split: option.splits)
  with Cons show ?case by (blast intro: fire_inv)
qed


lemma state_inv_start: "state_inv w plan (start items)"
  by (simp add: state_inv_def start_def)

lemma Run_cases:
  assumes "Run w o' flags args sched = Some s"
  shows "(\<exists>err. (\<exists>k < length args. fatal_at w o' k (args ! k)) \<and>
            s = \<lparr>ending = Exited 1, wg = 0, tasks = [],
                 trace = [Log Command FatalLevel (Error err)]\<rparr>) \<or>
         (\<exists>items. \<not> (\<exists>k < length args. fatal_at w o' k (args ! k)) \<and>
            resolve_loop w o' 0 args [] = Returns items \<and>
            run_schedule w o' (pod_tasks o' (VisitAll flags []) items) sched (start items) = Some s)"
  using assms resolve_loop_outcome [of args w o' 0 "[]"]
  by (auto simp: Run_def)

lemma Run_inv:
  assumes "Run w o' flags args sched = Some s"
  shows "(\<exists>err. (\<exists>k < length args. fatal_at w o' k (args ! k)) \<and>
            s = \<lparr>ending = Exited 1, wg = 0, tasks = [],
                 trace = [Log Command FatalLevel (Error err)]\<rparr>) \<or>
         (\<exists>items. \<not> (\<exists>k < length args. fatal_at w o' k (args ! k)) \<and>
            resolve_loop w o' 0 args [] = Returns items \<and>
            state_inv w (pod_tasks o' (VisitAll flags []) items) s)"
  using Run_cases [OF assms] run_schedule_inv [OF _ state_inv_start]
  by blast

lemma pending_nonneg: "0 \<le> pending ts"
  by (simp add: pending_def)

lemma all_finished:
  assumes "state_inv w plan s" and "wg s = 0" and "k < length (tasks s)"
  shows "pc (tasks s ! k) = Finished"
proof -
  from assms(1,2) have "sum_list (map pending (tasks s)) = 0" by (simp add: state_inv_def)
  then have "\<forall>x \<in> set (map pending (tasks s)). x = 0"
    by (subst (asm) sum_list_nonneg_eq_0_iff) (auto simp: pending_nonneg)
  with assms(3) have "pending (tasks s ! k) = 0" by simp
  then show ?thesis by (simp add: pending_def split: if_splits)
qed

lemma finished_logged:
  assumes "state_inv w plan s" and "k < length (tasks s)" and "pc (tasks s ! k) = Finished"
  shows "last_entry k (prefix (task (tasks s ! k))) (subproc (tasks s ! k)) \<in> set (trace s) \<and>
         (setup_ok (subproc (tasks s ! k)) \<longrightarrow> exited (tasks s ! k))"
proof -
  from assms(1,2) have "task_inv k (trace s) (tasks s ! k)" by (simp add: state_inv_def)
  with assms(3) show ?thesis by (simp add: task_inv_def)
qed

lemma last_entry_cases:
  "(\<exists>msg. last_entry k pre p = Log (Task k) ErrorLevel msg) \<or>
   last_entry k pre p = Log (Task k) InfoLevel (pre @ ''exit'')"
  by (simp add: last_entry_def split: option.splits)

lemma length_pod_tasks:
  "\<forall>p \<in> set pods. length (Containers p) = C \<Longrightarrow> length (pod_tasks o' fg pods) = length pods * C"
  by (induction pods) (auto simp: container_tasks_map)

subsection \<open>The readers in a run\<close>

lemma whole_line_iff: "whole_line l \<longleftrightarrow> (\<exists>body. l = body @ [newline] \<and> newline \<notin> set body)"
proof
  assume "whole_line l"
  then have "l = butlast l @ [newline]" "newline \<notin> set (butlast l)"
    using append_butlast_last_id [of l] by (simp_all add: whole_line_def)
  then show "\<exists>body. l = body @ [newline] \<and> newline \<notin> set body" by blast
next
  assume "\<exists>body. l = body @ [newline] \<and> newline \<notin> set body"
  then show "whole_line l" by (auto simp: whole_line_def)
qed

lemma ReadString_whole_line:
  "ReadString e s newline = ((line, None), rest) \<Longrightarrow> whole_line line \<and> s = line @ rest"
  using ReadString_line [of e s newline line rest] by (auto simp: whole_line_iff)

lemma readers_invI:
  assumes "\<And>k ch. k < length (tasks s) \<Longrightarrow> reader_inv k (trace s) (tasks s ! k) ch"
    and "\<And>k ch. length (tasks s) \<le> k \<Longrightarrow> reader_log k ch (trace s) = []"
  shows "readers_inv s"
  using assms by (simp add: readers_inv_def)

lemma readers_inv_task: "readers_inv s \<Longrightarrow> k < length (tasks s) \<Longrightarrow> reader_inv k (trace s) (tasks s ! k) ch"
  by (simp add: readers_inv_def)

lemma readers_inv_none: "readers_inv s \<Longrightarrow> length (tasks s) \<le> k \<Longrightarrow> reader_log k ch (trace s) = []"
  by (simp add: readers_inv_def)

lemma reader_log_append: "reader_log k ch (tr @ evs) = reader_log k ch tr @ reader_log k ch evs"
  by (simp add: reader_log_def)

lemma task_step_reader_log:
  "task_step j ts = Some (ts', evs, d) \<Longrightarrow> reader_log k ch evs = []"
  by (cases "pc ts") (auto simp: task_step_def reader_log_def split: option.splits if_splits)

lemma task_step_readers:
  assumes "task_step k ts = Some (ts', evs, d)"
  shows "task ts' = task ts \<and> subproc ts' = subproc ts \<and>
     (if pc ts = go_place ch
      then get_reader ch ts' = Reading (channel_bytes ch (subproc ts)) \<and>
           pc ts \<in> before_go ch \<and> pc ts' \<notin> before_go ch
      else get_reader ch ts' = get_reader ch ts \<and>
           (pc ts' \<in> before_go ch \<longrightarrow> pc ts \<in> before_go ch))"
  using assms
  by (cases "pc ts"; cases ch)
    (auto simp: task_step_def get_reader_def before_go_def channel_bytes_def go_place_def
      split: option.splits if_splits)

lemma task_step_reader_inv:
  assumes st: "task_step k ts = Some (ts', evs, d)" and inv: "reader_inv k tr ts ch"
  shows "reader_inv k (tr @ evs) ts' ch"
proof -
  have log: "reader_log k ch (tr @ evs) = reader_log k ch tr"
    using task_step_reader_log [OF st] by (simp add: reader_log_append)
  note fr = task_step_readers [OF st, of ch]
  show ?thesis
  proof (cases "pc ts = go_place ch")
    case True
    with fr inv have "get_reader ch ts = NotStarted" by (simp add: reader_inv_def)
    with True fr inv show ?thesis by (simp add: reader_inv_def log unread_def)
  next
    case False
    with fr inv show ?thesis by (simp add: reader_inv_def log)
  qed
qed

lemma set_reader_same: "get_reader ch (set_reader ch r ts) = r"
  by (cases ch) (simp_all add: get_reader_def set_reader_def)

lemma set_reader_other: "ch' \<noteq> ch \<Longrightarrow> get_reader ch' (set_reader ch r ts) = get_reader ch' ts"
  by (cases ch; cases ch') (simp_all add: get_reader_def set_reader_def)

lemma get_reader_exited: "get_reader ch (ts\<lparr>exited := b\<rparr>) = get_reader ch ts"
  by (cases ch) (simp_all add: get_reader_def)

lemma reader_log_other:
  "(j, ch') \<noteq> (k, ch) \<Longrightarrow> reader_log j ch' [Log (Reader k ch) lv msg] = []"
  by (auto simp: reader_log_def)

lemma reader_log_same: "reader_log k ch [Log (Reader k ch) lv msg] = [msg]"
  by (simp add: reader_log_def)

lemma reader_inv_mono:
  "reader_inv j tr ts ch \<Longrightarrow> reader_log j ch evs = [] \<Longrightarrow> reader_inv j (tr @ evs) ts ch"
  by (simp add: reader_inv_def reader_log_append)

lemma reader_inv_line:
  assumes inv: "reader_inv k tr ts ch" and rd: "get_reader ch ts = Reading bytes"
    and rs: "ReadString EOF bytes newline = ((line, None), rest)"
  shows "reader_inv k (tr @ [Log (Reader k ch) InfoLevel (prefix (task ts) @ line)])
           (set_reader ch (Reading rest) ts) ch"
proof -
  from inv rd obtain ls where ls: "list_all whole_line ls"
    "channel_bytes ch (subproc ts) = concat ls @ bytes"
    "reader_log k ch tr = map (\<lambda>l. prefix (task ts) @ l) ls"
    and pc: "pc ts \<notin> before_go ch"
    by (auto simp: reader_inv_def unread_def)
  from ReadString_whole_line [OF rs] have line: "whole_line line" "bytes = line @ rest"
    by simp_all
  have 1: "list_all whole_line (ls @ [line])" using ls(1) line(1) by simp
  have 2: "channel_bytes ch (subproc ts) = concat (ls @ [line]) @ rest"
    using ls(2) line(2) by simp
  have 3: "reader_log k ch (tr @ [Log (Reader k ch) InfoLevel (prefix (task ts) @ line)]) =
      map (\<lambda>l. prefix (task ts) @ l) (ls @ [line])"
    using ls(3) by (simp add: reader_log_append reader_log_same)
  from 1 2 3 have
    "\<exists>ls'. list_all whole_line ls' \<and> channel_bytes ch (subproc ts) = concat ls' @ rest \<and>
       reader_log k ch (tr @ [Log (Reader k ch) InfoLevel (prefix (task ts) @ line)]) =
         map (\<lambda>l. prefix (task ts) @ l) ls'"
    by blast
  with pc show ?thesis
    by (simp add: reader_inv_def set_reader_same set_reader_frame unread_def)
qed

lemma readers_inv_update:
  assumes inv: "readers_inv s" and k: "k < length (tasks s)"
    and new: "\<And>ch. reader_inv k (trace s @ evs) ts ch"
    and others: "\<And>j ch. j \<noteq> k \<Longrightarrow> reader_log j ch evs = []"
  shows "readers_inv (s\<lparr>wg := n, tasks := (tasks s)[k := ts], trace := trace s @ evs\<rparr>)"
proof (rule readers_invI)
  fix j ch
  assume "j < length (tasks (s\<lparr>wg := n, tasks := (tasks s)[k := ts], trace := trace s @ evs\<rparr>))"
  then have j: "j < length (tasks s)" by simp
  show "reader_inv j (trace (s\<lparr>wg := n, tasks := (tasks s)[k := ts], trace := trace s @ evs\<rparr>))
          (tasks (s\<lparr>wg := n, tasks := (tasks s)[k := ts], trace := trace s @ evs\<rparr>) ! j) ch"
  proof (cases "j = k")
    case True
    with k new show ?thesis by simp
  next
    case False
    with reader_inv_mono [OF readers_inv_task [OF inv j] others [OF False]] show ?thesis
      by simp
  qed
next
  fix j ch
  assume "length (tasks (s\<lparr>wg := n, tasks := (tasks s)[k := ts], trace := trace s @ evs\<rparr>)) \<le> j"
  then have j: "length (tasks s) \<le> j" by simp
  with k have "j \<noteq> k" by simp
  with readers_inv_none [OF inv j] others show
    "reader_log j ch (trace (s\<lparr>wg := n, tasks := (tasks s)[k := ts], trace := trace s @ evs\<rparr>)) = []"
    by (simp add: reader_log_append)
qed

lemma fire_readers_inv:
  assumes "fire w o' plan a s = Some s'" and inv: "readers_inv s"
  shows "readers_inv s'"
proof (cases a)
  case Launch
  let ?new = "\<lparr>task = plan ! length (tasks s),
      subproc = subprocess w (length (tasks s)) (str (plan ! length (tasks s))),
      pc = AtStdoutPipe, exited = False, rd_stdout = NotStarted, rd_stderr = NotStarted\<rparr>"
  from Launch assms(1) obtain evs where
    s': "s' = s\<lparr>wg := wg s + 1, tasks := tasks s @ [?new], trace := trace s @ evs\<rparr>"
    and evs: "\<And>j ch. reader_log j ch evs = []"
    by (auto simp: fire_Launch reader_log_def split: if_splits)
  show ?thesis
  proof (rule readers_invI)
    fix j ch
    assume "j < length (tasks s')"
    then consider "j < length (tasks s)" | "j = length (tasks s)"
      unfolding s' by (auto simp: less_Suc_eq)
    then show "reader_inv j (trace s') (tasks s' ! j) ch"
    proof cases
      case 1
      with reader_inv_mono [OF readers_inv_task [OF inv 1] evs] show ?thesis
        by (simp add: s' nth_append)
    next
      case 2
      with readers_inv_none [OF inv, of j ch] evs [of j ch] show ?thesis
        by (cases ch)
          (simp_all add: s' reader_inv_def reader_log_append get_reader_def unread_def)
    qed
  next
    fix j ch
    assume "length (tasks s') \<le> j"
    then have "length (tasks s) \<le> j" by (simp add: s')
    with readers_inv_none [OF inv this] evs show "reader_log j ch (trace s') = []"
      by (simp add: s' reader_log_append)
  qed
next
  case (Step k)
  with assms(1) obtain ts evs d where k: "k < length (tasks s)"
    and st: "task_step k (tasks s ! k) = Some (ts, evs, d)"
    and s': "s' = s\<lparr>wg := wg s + d, tasks := (tasks s)[k := ts], trace := trace s @ evs\<rparr>"
    by (auto simp: fire_Step split: if_splits option.splits)
  from inv k have "reader_inv k (trace s) (tasks s ! k) ch" for ch
    by (simp add: readers_inv_def)
  then have "reader_inv k (trace s @ evs) ts ch" for ch
    by (rule task_step_reader_inv [OF st])
  then show ?thesis
    unfolding s' by (rule readers_inv_update [OF inv k]) (rule task_step_reader_log [OF st])
next
  case (ProcExit k)
  with assms(1) have k: "k < length (tasks s)"
    and s': "s' = s\<lparr>wg := wg s, tasks := (tasks s)[k := (tasks s ! k)\<lparr>exited := True\<rparr>],
                    trace := trace s @ []\<rparr>"
    by (auto simp: fire_ProcExit split: if_splits)
  from inv k have "reader_inv k (trace s) (tasks s ! k) ch" for ch
    by (simp add: readers_inv_def)
  then have "reader_inv k (trace s @ []) ((tasks s ! k)\<lparr>exited := True\<rparr>) ch" for ch
    by (simp add: reader_inv_def get_reader_exited)
  then show ?thesis
    unfolding s' by (rule readers_inv_update [OF inv k]) (simp add: reader_log_def)
next
  case (ReadLine k ch)
  with assms(1) obtain bytes line rest where k: "k < length (tasks s)"
    and rd: "get_reader ch (tasks s ! k) = Reading bytes"
    and rs: "ReadString EOF bytes newline = ((line, None), rest)"
    and s': "s' = s\<lparr>wg := wg s, tasks := (tasks s)[k := set_reader ch (Reading rest) (tasks s ! k)],
        trace := trace s @ [Log (Reader k ch) InfoLevel (prefix (task (tasks s ! k)) @ line)]\<rparr>"
    by (auto simp: fire_ReadLine split: if_splits reader.splits prod.splits option.splits)
  let ?ev = "Log (Reader k ch) InfoLevel (prefix (task (tasks s ! k)) @ line)"
  have new: "reader_inv k (trace s @ [?ev]) (set_reader ch (Reading rest) (tasks s ! k)) ch'" for ch'
  proof (cases "ch' = ch")
    case True
    from inv k have "reader_inv k (trace s) (tasks s ! k) ch" by (simp add: readers_inv_def)
    from reader_inv_line [OF this rd rs] True show ?thesis by simp
  next
    case False
    from inv k have "reader_inv k (trace s) (tasks s ! k) ch'" by (simp add: readers_inv_def)
    with False show ?thesis
      by (simp add: reader_inv_def set_reader_other set_reader_frame reader_log_append
            reader_log_other)
  qed
  show ?thesis
    unfolding s' by (rule readers_inv_update [OF inv k new]) (simp add: reader_log_other)
next
  case (ReadStop k ch)
  with assms(1) obtain bytes where k: "k < length (tasks s)"
    and rd: "get_reader ch (tasks s ! k) = Reading bytes"
    and s': "s' = s\<lparr>wg := wg s, tasks := (tasks s)[k := set_reader ch (Stopped bytes) (tasks s ! k)],
        trace := trace s @ []\<rparr>"
    by (auto simp: fire_ReadStop split: if_splits reader.splits)
  have new: "reader_inv k (trace s @ []) (set_reader ch (Stopped bytes) (tasks s ! k)) ch'" for ch'
  proof (cases "ch' = ch")
    case True
    from inv k have "reader_inv k (trace s) (tasks s ! k) ch" by (simp add: readers_inv_def)
    with rd True show ?thesis
      by (auto simp: reader_inv_def set_reader_same set_reader_frame unread_def)
  next
    case False
    from inv k have "reader_inv k (trace s) (tasks s ! k) ch'" by (simp add: readers_inv_def)
    with False show ?thesis
      by (simp add: reader_inv_def set_reader_other set_reader_frame)
  qed
  show ?thesis
    unfolding s' by (rule readers_inv_update [OF inv k new]) (simp add: reader_log_def)
next
  case WaitReturn
  with assms(1) have "s' = s\<lparr>ending := Returned\<rparr>"
    by (auto simp: fire_WaitReturn split: if_splits)
  with inv show ?thesis by (simp add: readers_inv_def)
qed

lemma run_schedule_readers_inv:
  "run_schedule w o' plan sched s = Some s' \<Longrightarrow> readers_inv s \<Longrightarrow> readers_inv s'"
proof (induction sched arbitrary: s)
  case Nil
  then show ?case by simp
next
  case (Cons a sched)
  then obtain s1 where "fire w o' plan a s = Some s1" "run_schedule w o' plan sched s1 = Some s'"
    by (auto split: option.splits)
  with Cons show ?case by (blast intro: fire_readers_inv)
qed

lemma readers_inv_start: "readers_inv (start items)"
  by (simp add: readers_inv_def start_def reader_log_def)



subsection \<open>Every run can end\<close>
















subsection \<open>What a reader has logged in a run\<close>

lemma reader_loop_lines:
  "\<exists>lines rest. s = concat lines @ rest \<and> newline \<notin> set rest \<and>
     (\<forall>l \<in> set lines. \<exists>body. l = body @ [newline] \<and> newline \<notin> set body) \<and>
     reader_loop e prefix' s = map (\<lambda>l. prefix' @ l) lines"
proof (induction e prefix' s rule: reader_loop.induct)
  case (1 e prefix' s)
  obtain line err rest where rs: "ReadString e s newline = ((line, err), rest)"
    by (cases "ReadString e s newline") auto
  show ?case
  proof (cases err)
    case None
    note rs' = rs [unfolded None]
    from ReadString_line [OF rs'] obtain body where
      body: "line = body @ [newline]" "newline \<notin> set body" "s = line @ rest" by blast
    from "1.IH" [OF rs' [symmetric] refl refl] obtain lines rest' where
      ih: "rest = concat lines @ rest'" "newline \<notin> set rest'"
        "\<forall>l \<in> set lines. \<exists>body. l = body @ [newline] \<and> newline \<notin> set body"
        "reader_loop e prefix' rest = map (\<lambda>l. prefix' @ l) lines"
      by blast
    have 1: "s = concat (line # lines) @ rest'"
      using body(3) ih(1) by simp
    have 2: "\<forall>l \<in> set (line # lines). \<exists>body. l = body @ [newline] \<and> newline \<notin> set body"
      using body(1,2) ih(3) by simp
    have 3: "reader_loop e prefix' s = map (\<lambda>l. prefix' @ l) (line # lines)"
      using reader_loop_line [OF rs'] ih(4) by (simp only: list.map)
    from 1 ih(2) 2 3 show ?thesis by blast
  next
    case (Some err')
    note rs' = rs [unfolded Some]
    from ReadString_end [OF rs'] have 1: "newline \<notin> set s" by simp
    have 2: "reader_loop e prefix' s = map (\<lambda>l. prefix' @ l) []"
      using reader_loop_end [OF rs'] by (simp only: list.map)
    have 3: "s = concat [] @ s" by simp
    have 4: "\<forall>l \<in> set ([] :: string list). \<exists>body. l = body @ [newline] \<and> newline \<notin> set body"
      by simp
    from 3 1 4 2 show ?thesis by blast
  qed
qed

lemma ReadString_no_delim: "d \<notin> set s \<Longrightarrow> ReadString e s d = ((s, Some e), [])"
  by (induction s) auto

lemma ReadString_delim:
  "d \<notin> set body \<Longrightarrow> ReadString e (body @ d # s) d = ((body @ [d], None), s)"
  by (induction body) auto

lemma reader_loop_concat:
  assumes "list_all whole_line lines" and "newline \<notin> set rest"
  shows "reader_loop e prefix' (concat lines @ rest) = map (\<lambda>l. prefix' @ l) lines"
  using assms(1)
proof (induction lines)
  case Nil
  from reader_loop_end [OF ReadString_no_delim [OF assms(2)]] show ?case by simp
next
  case (Cons l lines)
  then obtain body where body: "l = body @ [newline]" "newline \<notin> set body"
    by (auto simp: whole_line_iff)
  have "ReadString e (concat (l # lines) @ rest) newline = ((l, None), concat lines @ rest)"
    using ReadString_delim [OF body(2), of e "concat lines @ rest"] body(1) by simp
  from reader_loop_line [OF this] Cons show ?case by simp
qed

lemma whole_lines_newline:
  "list_all whole_line lines \<Longrightarrow> newline \<notin> set rest \<Longrightarrow>
   newline \<notin> set (concat lines @ rest) \<longleftrightarrow> lines = []"
  by (cases lines) (auto simp: whole_line_iff)

text \<open>
  In every state of every run, the bytes of a channel are whole lines followed by a
  rest without newline; the reader of the channel has logged the first \<open>n\<close> of these
  lines, and has not consumed the others and the rest.
\<close>

lemma reader_progress:
  assumes "Run w o' flags args sched = Some s" and "k < length (tasks s)"
  shows "\<exists>lines rest n.
     list_all whole_line lines \<and> newline \<notin> set rest \<and> n \<le> length lines \<and>
     channel_bytes ch (subproc (tasks s ! k)) = concat lines @ rest \<and>
     reader_log k ch (trace s) = map (\<lambda>l. prefix (task (tasks s ! k)) @ l) (take n lines) \<and>
     unread (channel_bytes ch (subproc (tasks s ! k))) (get_reader ch (tasks s ! k)) =
       concat (drop n lines) @ rest"
proof -
  let ?bytes = "channel_bytes ch (subproc (tasks s ! k))"
  let ?unread = "unread ?bytes (get_reader ch (tasks s ! k))"
  from Run_cases [OF assms(1)] assms(2) obtain items where
    "run_schedule w o' (pod_tasks o' (VisitAll flags []) items) sched (start items) = Some s"
    by auto
  from run_schedule_readers_inv [OF this readers_inv_start] assms(2)
  have "reader_inv k (trace s) (tasks s ! k) ch" by (simp add: readers_inv_def)
  then obtain ls where ls: "list_all whole_line ls" "?bytes = concat ls @ ?unread"
    "reader_log k ch (trace s) = map (\<lambda>l. prefix (task (tasks s ! k)) @ l) ls"
    by (auto simp: reader_inv_def)
  from reader_loop_lines [of ?unread EOF "[]"] obtain lines' rest where
    u: "?unread = concat lines' @ rest" "newline \<notin> set rest" "list_all whole_line lines'"
    by (auto simp: whole_line_iff list_all_iff)
  have 1: "list_all whole_line (ls @ lines')" using ls(1) u(3) by simp
  have 2: "length ls \<le> length (ls @ lines')" by simp
  have 3: "?bytes = concat (ls @ lines') @ rest" using ls(2) u(1) by simp
  have 4: "reader_log k ch (trace s) =
      map (\<lambda>l. prefix (task (tasks s ! k)) @ l) (take (length ls) (ls @ lines'))"
    using ls(3) by simp
  have 5: "?unread = concat (drop (length ls) (ls @ lines')) @ rest" using u(1) by simp
  from 1 u(2) 2 3 4 5 show ?thesis by blast
qed

text \<open>
  A reader that has consumed every whole line of its channel has logged what the loop
  of lines 127-134 logs on the whole channel.
\<close>

lemma reader_log_read_out:
  assumes "Run w o' flags args sched = Some s" and "k < length (tasks s)"
    and "newline \<notin> set (unread (channel_bytes ch (subproc (tasks s ! k)))
                            (get_reader ch (tasks s ! k)))"
  shows "reader_log k ch (trace s) =
     reader_loop EOF (prefix (task (tasks s ! k))) (channel_bytes ch (subproc (tasks s ! k)))"
proof -
  from reader_progress [OF assms(1,2), of ch] obtain lines rest n where
    p: "list_all whole_line lines" "newline \<notin> set rest" "n \<le> length lines"
      "channel_bytes ch (subproc (tasks s ! k)) = concat lines @ rest"
      "reader_log k ch (trace s) = map (\<lambda>l. prefix (task (tasks s ! k)) @ l) (take n lines)"
      "unread (channel_bytes ch (subproc (tasks s ! k))) (get_reader ch (tasks s ! k)) =
         concat (drop n lines) @ rest"
    by blast
  from p(1) have "list_all whole_line (drop n lines)"
    by (auto simp: list_all_iff dest: in_set_dropD)
  from whole_lines_newline [OF this p(2)] assms(3) p(6) have "drop n lines = []" by simp
  with p(3) have "take n lines = lines" by simp
  with p(5) reader_loop_concat [OF p(1,2), of EOF "prefix (task (tasks s ! k))"] p(4)
  show ?thesis by simp
qed


subsection \<open>The example run\<close>

lemma hasty_run: "Run two_tasks NewLogsOptions follow_set [''pod-a''] hasty = Some hasty_end"
  by code_simp

lemma hasty_returned: "ending hasty_end = Returned"
  by (simp add: hasty_end_def)






lemma paren_refused: "isl (regexp_Compile two_tasks ([''pod-a'', ''(''] ! 1))"
  by (simp add: two_tasks_def example_world_def literal_regexp_def literal_byte_def
        special_bytes_def)

section \<open>The claims\<close>

text \<open>
  Claim C1. For a discovery output of \<open>R\<close> well-formed records the resolver is
  claimed to produce at most \<open>R\<close> pods, those whose name matches. The code also
  treats the empty text after the last bar as a record (line 192 splits at every bar,
  and the loop of line 193 skips no piece): with a pattern that matches the empty text,
  here the empty pattern, the output \<^verbatim>\<open>"pod-a web|"\<close> of one record gives two pods,
  the second with an empty name and no container, and the empty output of no record
  gives one such pod. For a pattern that does not match the empty text the claim
  holds: see \<open>cmdGetPods_matching_records\<close> above.
\<close>

theorem resolver_trailing_piece:
  "discovery_output [(''pod-a'', [''web''])] = ''pod-a web|'' \<and>
   cmdGetPods (example_world ''pod-a web|'' (\<lambda>k. quiet)) 0 [] [] ''default'' =
     Returns (Inr \<lparr>Items = [pod_a_web, \<lparr>Pod.Name = [], Containers = []\<rparr>]\<rparr>) \<and>
   discovery_output [] = [] \<and>
   cmdGetPods (example_world [] (\<lambda>k. quiet)) 0 [] [] ''default'' =
     Returns (Inr \<lparr>Items = [\<lparr>Pod.Name = [], Containers = []\<rparr>]\<rparr>)"
  by (simp add: discovery_output_def record_text_def cmdGetPods_def example_world_def
        literal_empty strings_Split_def pod_a_web_def)

text \<open>
  Claim C2. The discovery output \<^verbatim>\<open>"pod-a web sidecar|pod-b web|"\<close> resolved with the
  pattern \<^verbatim>\<open>"pod-a"\<close>: without a container filter the result is the one pod
  \<^verbatim>\<open>pod-a\<close> with the containers \<^verbatim>\<open>web\<close> and \<^verbatim>\<open>sidecar\<close>, in that order; with the
  container filter \<^verbatim>\<open>"web"\<close> it is the one pod \<^verbatim>\<open>pod-a\<close> with the container
  \<^verbatim>\<open>web\<close>.
\<close>

theorem resolver_example:
  "cmdGetPods (example_world ''pod-a web sidecar|pod-b web|'' (\<lambda>k. quiet)) 0 ''pod-a'' [] ''default'' =
     Returns (Inr \<lparr>Items = [\<lparr>Pod.Name = ''pod-a'',
       Containers = [\<lparr>Container.Name = ''web''\<rparr>, \<lparr>Container.Name = ''sidecar''\<rparr>]\<rparr>]\<rparr>) \<and>
   cmdGetPods (example_world ''pod-a web sidecar|pod-b web|'' (\<lambda>k. quiet)) 0 ''pod-a'' ''web'' ''default'' =
     Returns (Inr \<lparr>Items = [\<lparr>Pod.Name = ''pod-a'',
       Containers = [\<lparr>Container.Name = ''web''\<rparr>]\<rparr>]\<rparr>)"
  by (simp add: cmdGetPods_def example_world_def literal_pod_a strings_Split_def)

text \<open>
  Claim C3. When the discovery succeeds and the pattern compiles, \<open>cmdGetPods\<close>
  returns one pod for each piece of the output whose first field matches, and the
  containers of that pod are exactly the further fields \<open>c\<close> of the piece for which
  the container filter is empty or equal to \<open>c\<close>, in their order. Equality of
  strings is equality of bytes, so it is case sensitive; the witness filters
  \<^verbatim>\<open>Web\<close> out with the filter \<^verbatim>\<open>web\<close>. (\<open>strings_Split\<close> never gives an empty
  list, so \<open>hd\<close> and \<open>tl\<close> are the first field and the others.)
\<close>

theorem container_filter_exact:
  assumes "CombinedOutput w k (get_pod_command ns) = Inr out"
    and "regexp_Compile w pat = Inr pr"
  shows "\<exists>items. cmdGetPods w k pat cName ns = Returns (Inr \<lparr>Items = items\<rparr>) \<and>
     map (\<lambda>p. map Container.Name (Containers p)) items =
     map (\<lambda>cs. filter (\<lambda>c. cName = [] \<or> c = cName) (tl cs))
       (filter (\<lambda>cs. pr (hd cs)) (map (\<lambda>p. strings_Split p CHR '' '') (strings_Split out CHR ''|'')))"
proof -
  have loop: "\<exists>items'. pod_loop pr cName ps items = Returns (items @ items') \<and>
     map (\<lambda>p. map Container.Name (Containers p)) items' =
     map (\<lambda>cs. filter (\<lambda>c. cName = [] \<or> c = cName) (tl cs))
       (filter (\<lambda>cs. pr (hd cs)) (map (\<lambda>p. strings_Split p CHR '' '') ps))" for ps items
  proof (induction ps arbitrary: items)
    case Nil
    then show ?case by simp
  next
    case (Cons p ps)
    obtain c0 rest where sp: "strings_Split p CHR '' '' = c0 # rest"
      using strings_Split_nonempty [of p "CHR '' ''"] by (cases "strings_Split p CHR '' ''") auto
    show ?case
    proof (cases "pr c0")
      case False
      with sp Cons.IH [of items] show ?thesis by simp
    next
      case True
      let ?pod = "\<lparr>Pod.Name = c0, Containers = container_loop cName rest []\<rparr>"
      from Cons.IH [of "items @ [?pod]"] obtain items' where
        "pod_loop pr cName ps (items @ [?pod]) = Returns ((items @ [?pod]) @ items')"
        "map (\<lambda>p. map Container.Name (Containers p)) items' =
         map (\<lambda>cs. filter (\<lambda>c. cName = [] \<or> c = cName) (tl cs))
           (filter (\<lambda>cs. pr (hd cs)) (map (\<lambda>p. strings_Split p CHR '' '') ps))"
        by blast
      moreover have "map Container.Name (container_loop cName rest []) =
          filter (\<lambda>c. cName = [] \<or> c = cName) rest"
        by (simp add: container_loop_filter comp_def eq_commute [of cName])
      ultimately show ?thesis
        using sp True by (intro exI [of _ "?pod # items'"]) simp
    qed
  qed
  from loop [of "strings_Split out CHR ''|''" "[]"] assms show ?thesis
    by (auto simp: cmdGetPods_def)
qed

theorem container_filter_exact_witness:
  "\<exists>items. cmdGetPods (example_world ''pod-a Web web|'' (\<lambda>k. quiet)) 0 ''pod-a'' ''web'' ''default'' =
       Returns (Inr \<lparr>Items = items\<rparr>) \<and>
     map (\<lambda>p. map Container.Name (Containers p)) items = [[''web'']]"
  using container_filter_exact [where w = "example_world ''pod-a Web web|'' (\<lambda>k. quiet)"
      and k = 0 and ns = "''default''" and out = "''pod-a Web web|''" and pat = "''pod-a''"
      and pr = "\<lambda>s. Contains s ''pod-a''" and cName = "''web''"]
  by (simp add: example_world_def literal_pod_a strings_Split_def)

text \<open>
  Claim C4. When the loop of lines 80-88 accumulates \<open>xs\<close> for the pattern \<open>a\<close>
  alone and \<open>ys\<close> for the pattern \<open>b\<close> alone (as the first and as the second
  argument), it accumulates \<open>xs @ ys\<close> for the two arguments \<open>a\<close>, \<open>b\<close>: the
  pods of \<open>a\<close> followed by the pods of \<open>b\<close>. Nothing is removed: in the witness
  both discovery invocations give the same output, its one pod matches both patterns,
  and it appears twice.
\<close>

theorem patterns_concatenate:
  assumes "resolve_loop w o' 0 [a] [] = Returns xs"
    and "resolve_loop w o' 1 [b] [] = Returns ys"
  shows "resolve_loop w o' 0 [a, b] [] = Returns (xs @ ys)"
proof -
  have "resolve_loop w o' 0 ([a] @ [b]) [] = resolve_loop w o' 1 [b] xs"
    using assms(1) by (simp only: resolve_loop_append) simp
  moreover have "\<exists>zs. resolve_loop w o' 1 [b] xs = Returns zs"
    using resolve_loop_outcome [of "[b]" w o' 1 xs] resolve_loop_outcome [of "[b]" w o' 1 "[]"]
      assms(2) by auto
  then obtain zs where zs: "resolve_loop w o' 1 [b] xs = Returns zs" ..
  from resolve_loop_items [OF zs] assms(2) have "zs = xs @ ys" by auto
  ultimately show ?thesis using zs by simp
qed

theorem patterns_concatenate_witness:
  "resolve_loop (example_world ''pod-a web|'' (\<lambda>k. quiet))
     \<lparr>Container = [], Namespace = ''default'', Debug = False\<rparr> 0 [''pod''] [] =
     Returns [pod_a_web] \<and>
   resolve_loop (example_world ''pod-a web|'' (\<lambda>k. quiet))
     \<lparr>Container = [], Namespace = ''default'', Debug = False\<rparr> 1 [''a''] [] =
     Returns [pod_a_web] \<and>
   resolve_loop (example_world ''pod-a web|'' (\<lambda>k. quiet))
     \<lparr>Container = [], Namespace = ''default'', Debug = False\<rparr> 0 [''pod'', ''a''] [] =
     Returns [pod_a_web, pod_a_web]"
proof -
  let ?w = "example_world ''pod-a web|'' (\<lambda>k. quiet)"
  let ?o = "\<lparr>Container = [], Namespace = ''default'', Debug = False\<rparr>"
  have a: "resolve_loop ?w ?o 0 [''pod''] [] = Returns [pod_a_web]"
    by (simp add: resolve_pod)
  have b: "resolve_loop ?w ?o 1 [''a''] [] = Returns [pod_a_web]"
    by (simp add: resolve_a)
  from patterns_concatenate [OF a b] a b show ?thesis by simp
qed




text \<open>
  Claim C6. When \<^verbatim>\<open>Run\<close> has returned, the tasks launched are those of the pods
  resolved: one per pod and container, in the order of the pods and of their
  containers, so \<open>P * C\<close> tasks for \<open>P\<close> pods of \<open>C\<close> containers each; and the
  goroutine of every one of them is finished and has logged an error or its exit
  marker. Since a log entry is never removed, each of these entries was written before
  the return.
\<close>

theorem run_joins_all_tasks:
  assumes "Run w o' flags args sched = Some s" and "ending s = Returned"
  shows "\<exists>items. resolve_loop w o' 0 args [] = Returns items \<and>
     map task (tasks s) =
       concat (map (\<lambda>p. map (new_task o' (VisitAll flags []) p) (Containers p)) items) \<and>
     (\<forall>C. (\<forall>p \<in> set items. length (Containers p) = C) \<longrightarrow>
        length (tasks s) = length items * C) \<and>
     (\<forall>k < length (tasks s).
        pc (tasks s ! k) = Finished \<and>
        ((\<exists>msg. Log (Task k) ErrorLevel msg \<in> set (trace s)) \<or>
         Log (Task k) InfoLevel (prefix (task (tasks s ! k)) @ ''exit'') \<in> set (trace s)))"
proof -
  from Run_inv [OF assms(1)] assms(2) obtain items where
    res: "resolve_loop w o' 0 args [] = Returns items"
    and inv: "state_inv w (pod_tasks o' (VisitAll flags []) items) s"
    by fastforce
  let ?plan = "pod_tasks o' (VisitAll flags []) items"
  from inv assms(2) have len: "length (tasks s) = length ?plan" and wg: "wg s = 0"
    by (simp_all add: state_inv_def)
  from inv len have "map task (tasks s) = ?plan"
    by (intro nth_equalityI) (simp_all add: state_inv_def)
  then have 1: "map task (tasks s) =
      concat (map (\<lambda>p. map (new_task o' (VisitAll flags []) p) (Containers p)) items)"
    by (simp only: pod_tasks_concat)
  have 2: "\<forall>C. (\<forall>p \<in> set items. length (Containers p) = C) \<longrightarrow>
      length (tasks s) = length items * C"
    using len by (simp add: length_pod_tasks)
  have 3: "pc (tasks s ! k) = Finished \<and>
      ((\<exists>msg. Log (Task k) ErrorLevel msg \<in> set (trace s)) \<or>
       Log (Task k) InfoLevel (prefix (task (tasks s ! k)) @ ''exit'') \<in> set (trace s))"
    if k: "k < length (tasks s)" for k
  proof -
    from all_finished [OF inv wg k] have fin: "pc (tasks s ! k) = Finished" .
    from finished_logged [OF inv k fin]
      last_entry_cases [of k "prefix (task (tasks s ! k))" "subproc (tasks s ! k)"]
    show ?thesis using fin by auto
  qed
  from res 1 2 3 show ?thesis by blast
qed

theorem run_joins_all_tasks_witness:
  "Run two_tasks NewLogsOptions follow_set [''pod-a''] hasty = Some hasty_end \<and>
   ending hasty_end = Returned \<and> length (tasks hasty_end) = 1 * 2 \<and>
   (\<exists>items. resolve_loop two_tasks NewLogsOptions 0 [''pod-a''] [] = Returns items \<and>
     map task (tasks hasty_end) =
       concat (map (\<lambda>p. map (new_task NewLogsOptions (VisitAll follow_set []) p) (Containers p)) items) \<and>
     (\<forall>C. (\<forall>p \<in> set items. length (Containers p) = C) \<longrightarrow>
        length (tasks hasty_end) = length items * C) \<and>
     (\<forall>k < length (tasks hasty_end).
        pc (tasks hasty_end ! k) = Finished \<and>
        ((\<exists>msg. Log (Task k) ErrorLevel msg \<in> set (trace hasty_end)) \<or>
         Log (Task k) InfoLevel (prefix (task (tasks hasty_end ! k)) @ ''exit'')
           \<in> set (trace hasty_end))))"
  using run_joins_all_tasks [OF hasty_run hasty_returned] hasty_run hasty_returned
  by (simp add: hasty_end_def)

text \<open>
  Claim C7. If one of the patterns does not compile, \<^verbatim>\<open>Run\<close> ends the process with
  status 1 under every schedule: no task was launched, no subprocess was started, and
  the only entry logged is the fatal one. (When a discovery invocation fails before
  the pattern is reached, the fatal entry is that failure.)
\<close>

theorem bad_pattern_aborts_before_launch:
  assumes "k < length args" and "isl (regexp_Compile w (args ! k))"
  shows "\<exists>err. Run w o' flags args sched =
     Some \<lparr>ending = Exited 1, wg = 0, tasks = [], trace = [Log Command FatalLevel (Error err)]\<rparr>"
proof -
  from assms have "\<exists>k < length args. fatal_at w o' (0 + k) (args ! k)"
    by (auto simp: fatal_at_def)
  with resolve_loop_outcome [of args w o' 0 "[]"] obtain err where
    "resolve_loop w o' 0 args [] = Fatalln err" by blast
  then show ?thesis by (auto simp: Run_def)
qed

theorem bad_pattern_aborts_before_launch_witness:
  "isl (regexp_Compile two_tasks ([''pod-a'', ''(''] ! 1)) \<and>
   (\<exists>err. Run two_tasks NewLogsOptions follow_set [''pod-a'', ''(''] hasty =
     Some \<lparr>ending = Exited 1, wg = 0, tasks = [],
           trace = [Log Command FatalLevel (Error err)]\<rparr>)"
  using bad_pattern_aborts_before_launch [OF _ paren_refused, of NewLogsOptions follow_set hasty]
    paren_refused
  by simp

text \<open>
  Claim C8. The command lines of the streaming tasks, in the order of the tasks: for
  each pod and each of its containers, \<^verbatim>\<open>kubectl logs\<close>, the pod name, then
  \<^verbatim>\<open> --name=value\<close> for each flag that was set on the command line and is neither
  \<^verbatim>\<open>help\<close> nor \<^verbatim>\<open>debug\<close>, in the order in which the flags are visited, and then
  \<^verbatim>\<open> --container\<close> with the container name exactly when the option
  \<^verbatim>\<open>o.Container\<close> is the empty string.
\<close>

theorem command_string:
  "map str (pod_tasks o' (VisitAll flags []) pods) =
   concat (map (\<lambda>p. map (\<lambda>c.
       ''kubectl logs '' @ Pod.Name p @ '' '' @
       concat (map (\<lambda>flag. '' --'' @ Flag.Name flag @ ''='' @ Value flag)
         (filter (\<lambda>flag. Changed flag \<and> Flag.Name flag \<noteq> ''help'' \<and> Flag.Name flag \<noteq> ''debug'')
            flags)) @
       (if Container o' = [] then '' --container '' @ Container.Name c else []))
     (Containers p)) pods)"
  by (simp only: pod_tasks_concat map_concat map_map comp_def str_new_task VisitAll_filter
        append_Nil)







end
